theory Spec2Isabelle
  imports Main "HOL-Library.Word"
begin

unbundle bit_operations_syntax

section \<open>Data model of gp.c\<close>

text \<open>
  The module keeps its state in file-level statics; here they are the fields of one
  record that every operation takes and returns. The C integer types are words of
  the same width: \<open>int16_t\<close> samples are \<open>16 word\<close> read through \<open>sint\<close>.
\<close>

type_synonym u8 = "8 word"
type_synonym u16 = "16 word"
type_synonym u32 = "32 word"
type_synonym s16 = "16 word"

definition GP_NUM_INPUTS :: nat where "GP_NUM_INPUTS = 4"
definition GP_NUM_OUTPUTS :: nat where "GP_NUM_OUTPUTS = 4"
definition GP_NUM_ADCS :: u32 where "GP_NUM_ADCS = 4"
definition GP_ADC_OVERSAMPLE_RATE :: u32 where "GP_ADC_OVERSAMPLE_RATE = 16"
definition GP_ADC_BUF_SIZE :: u32 where
  "GP_ADC_BUF_SIZE = GP_NUM_ADCS * GP_ADC_OVERSAMPLE_RATE * 2 * 2"

text \<open>
  Registers of the PDCA channel and the values the re-arm sequence stores in them.
  The masks and the peripheral identifier come from the vendor headers, so they stay
  symbolic; the two transfer counts are the numbers the code writes.
\<close>

datatype pdca_reg = CR | MAR | TCR | MARR | TCRR | PSR | MR

datatype pdca_value =
    TDIS_MASK
  | Addr_gp_adc_samples
  | Count u32
  | ADC_PDCA_PID_RX
  | HALF_WORD_RING
  | ECLR_TEN_MASK

text \<open>Calls into the hardware layer, in program order.\<close>

datatype hw_event =
    Gpio_set_pin nat
  | Gpio_clr_pin nat
  | Adcifa_disable
  | Adcifa_enable
  | Cpu_irq_save
  | Cpu_irq_restore
  | Pdca_write pdca_reg pdca_value
  | Pdca_read_isr

datatype gp_error =
    Assert_samples_read
  | Assert_sample_count
  | Assert_adc_total
  | Sample_index_out_of_range

record gp_state =
  gp_adc_samples :: "s16 list"
  gp_adc_last_sample_idx :: u32
  last_gpio :: u8
  gp_pwm_input_state :: u8
  gp_pwm_input_state_begin :: "u32 list"
  gp_pwm_input_values :: "u16 list"
  pdca_tcr :: u32
  gpout_levels :: "bool list"
  comms_gpin_state :: u8
  comms_pwm_values :: "u16 list"
  comms_pitot :: u16
  comms_battery_i :: u16
  comms_battery_v :: u16
  comms_range :: u16
  hw_trace :: "hw_event list"

section \<open>Ring-buffer bookkeeping of \<open>gp_tick\<close>\<close>

text \<open>\<open>samples_read = GP_ADC_BUF_SIZE - pdca_channel->tcr\<close>, in 32-bit arithmetic.\<close>

definition gp_samples_read :: "u32 \<Rightarrow> u32" where
  "gp_samples_read tcr = GP_ADC_BUF_SIZE - tcr"

text \<open>
  The three-way branch that fills the \<open>uint16_t samples_avail\<close>; the right-hand
  sides are computed in \<open>uint32_t\<close> and truncated by the assignment.
\<close>

definition gp_samples_avail :: "u32 \<Rightarrow> u32 \<Rightarrow> u16" where
  "gp_samples_avail samples_read idx =
     (if samples_read > idx then ucast (samples_read - idx)
      else if samples_read < idx then ucast ((GP_ADC_BUF_SIZE - idx - 1) + samples_read)
      else 0)"

text \<open>
  The formula of the specification, over unbounded naturals:
  \<open>available = (filled >= cursor) ? (filled - cursor) : (capacity - cursor) + filled\<close>.
\<close>

definition spec_available :: "nat \<Rightarrow> nat \<Rightarrow> nat \<Rightarrow> nat" where
  "spec_available capacity filled cursor =
     (if filled \<ge> cursor then filled - cursor else (capacity - cursor) + filled)"

text \<open>The health check: \<open>samples_avail > GP_ADC_BUF_SIZE * 7u / 8u || samples_avail == 0\<close>.\<close>

definition gp_needs_rearm :: "u16 \<Rightarrow> bool" where
  "gp_needs_rearm samples_avail \<longleftrightarrow>
     (ucast samples_avail :: u32) > GP_ADC_BUF_SIZE * 7 div 8 \<or> samples_avail = 0"

text \<open>
  The re-arm of the receive channel: the cursor goes back to 0 and the PDCA is
  programmed again from the buffer base with the full capacity, between
  \<open>ADCIFA_disable\<close> and \<open>ADCIFA_enable\<close> and with interrupts masked around
  the register writes. Writing \<open>tcr\<close> is what the next cycle reads back.
\<close>

definition gp_rearm_events :: "hw_event list" where
  "gp_rearm_events =
     [Adcifa_disable,
      Cpu_irq_save,
      Pdca_write CR TDIS_MASK,
      Pdca_write MAR Addr_gp_adc_samples,
      Pdca_write TCR (Count GP_ADC_BUF_SIZE),
      Pdca_write MARR Addr_gp_adc_samples,
      Pdca_write TCRR (Count GP_ADC_BUF_SIZE),
      Pdca_write PSR ADC_PDCA_PID_RX,
      Pdca_write MR HALF_WORD_RING,
      Pdca_write CR ECLR_TEN_MASK,
      Pdca_read_isr,
      Cpu_irq_restore,
      Adcifa_enable]"

definition gp_pdca_rearm :: "gp_state \<Rightarrow> gp_state" where
  "gp_pdca_rearm s =
     s\<lparr>gp_adc_last_sample_idx := 0,
       pdca_tcr := GP_ADC_BUF_SIZE,
       hw_trace := hw_trace s @ gp_rearm_events\<rparr>"

section \<open>Accumulating and averaging\<close>

text \<open>Negative samples become 0, samples of 2047 and more become 2047.\<close>

definition clamp_sample :: "s16 \<Rightarrow> s16" where
  "clamp_sample sample =
     (if sample <s 0 then 0
      else if 2047 \<le>s sample then 2047
      else sample)"

text \<open>
  The \<open>for (; samples_avail; samples_avail--)\<close> loop; the first argument is the
  value of the down-counter. \<open>Assert\<close> halts, and so does a read beyond the array
  in this model (the C leaves it undefined).
\<close>

fun gp_adc_accumulate ::
  "nat \<Rightarrow> s16 list \<Rightarrow> u32 \<Rightarrow> u32 list \<Rightarrow> u16 list \<Rightarrow> gp_error + (u32 \<times> u32 list \<times> u16 list)"
where
  "gp_adc_accumulate 0 samples idx adc_totals adc_sample_count =
     Inr (idx, adc_totals, adc_sample_count)"
| "gp_adc_accumulate (Suc n) samples idx adc_totals adc_sample_count =
     (let ch = unat (idx mod GP_NUM_ADCS) in
      if \<not> adc_sample_count ! ch \<le> 64 then Inl Assert_sample_count
      else if \<not> unat idx < length samples then Inl Sample_index_out_of_range
      else
        let sample = clamp_sample (samples ! unat idx);
            adc_totals' = adc_totals[ch := adc_totals ! ch + scast sample];
            adc_sample_count' = adc_sample_count[ch := adc_sample_count ! ch + 1];
            idx' = (idx + 1) AND (GP_ADC_BUF_SIZE - 1)
        in gp_adc_accumulate n samples idx' adc_totals' adc_sample_count')"

text \<open>One channel of the second loop: \<open>total <<= 4; total /= count\<close>, or 0.\<close>

definition gp_adc_average :: "u32 \<Rightarrow> u16 \<Rightarrow> u32" where
  "gp_adc_average adc_total sample_count =
     (if sample_count > 0 then push_bit 4 adc_total div ucast sample_count else 0)"

fun gp_adc_scale :: "nat list \<Rightarrow> u16 list \<Rightarrow> u32 list \<Rightarrow> gp_error + u32 list" where
  "gp_adc_scale [] adc_sample_count adc_totals = Inr adc_totals"
| "gp_adc_scale (i # rest) adc_sample_count adc_totals =
     (let t = gp_adc_average (adc_totals ! i) (adc_sample_count ! i) in
      if \<not> t \<le> 32768 then Inl Assert_adc_total
      else gp_adc_scale rest adc_sample_count (adc_totals[i := t]))"

section \<open>Digital pins\<close>

definition gp_set_pins_events :: "u32 \<Rightarrow> hw_event list" where
  "gp_set_pins_events pin_values =
     map (\<lambda>i. if pin_values AND push_bit i 1 \<noteq> 0 then Gpio_set_pin i else Gpio_clr_pin i)
       [0..<GP_NUM_OUTPUTS]"

definition gp_set_pins :: "u32 \<Rightarrow> gp_state \<Rightarrow> gp_state" where
  "gp_set_pins pin_values s =
     s\<lparr>gpout_levels := map (\<lambda>i. pin_values AND push_bit i 1 \<noteq> 0) [0..<GP_NUM_OUTPUTS],
       hw_trace := hw_trace s @ gp_set_pins_events pin_values\<rparr>"

text \<open>
  \<open>gp_get_pins\<close> ors together what \<open>gpio_local_get_pin_value\<close> returns for each
  input, shifted to the input's position; the argument gives those return values.
\<close>

definition gp_get_pins :: "(nat \<Rightarrow> u32) \<Rightarrow> u32" where
  "gp_get_pins pin_value =
     fold (\<lambda>i result. result OR push_bit i (pin_value i)) [0..<GP_NUM_INPUTS] 0"

section \<open>The periodic task\<close>

text \<open>
  \<open>gp_tick\<close> with its two inputs from outside: the byte \<open>comms_get_gpout\<close> returns
  and the levels of the input pins. The \<open>comms_set_*\<close> calls store into the
  \<open>comms_*\<close> fields.
\<close>

definition gp_tick :: "u8 \<Rightarrow> (nat \<Rightarrow> u32) \<Rightarrow> gp_state \<Rightarrow> gp_error + gp_state" where
  "gp_tick curr_gpio pin_value s0 =
     (let s1 = (if curr_gpio \<noteq> last_gpio s0
                then (gp_set_pins (ucast curr_gpio) s0)\<lparr>last_gpio := curr_gpio\<rparr>
                else s0);
          s2 = s1\<lparr>comms_gpin_state := ucast (gp_get_pins pin_value AND 0xff),
                  comms_pwm_values := gp_pwm_input_values s1\<rparr>;
          samples_read = gp_samples_read (pdca_tcr s2)
      in if \<not> samples_read \<le> GP_ADC_BUF_SIZE then Inl Assert_samples_read
         else
           let samples_avail = gp_samples_avail samples_read (gp_adc_last_sample_idx s2);
               rearm = gp_needs_rearm samples_avail;
               s3 = (if rearm then gp_pdca_rearm s2 else s2);
               samples_avail' = (if rearm then 0 else samples_avail)
           in case gp_adc_accumulate (unat samples_avail') (gp_adc_samples s3)
                     (gp_adc_last_sample_idx s3) [0, 0, 0, 0] [0, 0, 0, 0] of
                Inl e \<Rightarrow> Inl e
              | Inr (idx', adc_totals, adc_sample_count) \<Rightarrow>
                  (case gp_adc_scale [0, 1, 2, 3] adc_sample_count adc_totals of
                     Inl e \<Rightarrow> Inl e
                   | Inr out \<Rightarrow>
                       Inr (s3\<lparr>gp_adc_last_sample_idx := idx',
                               comms_pitot := ucast (out ! 0),
                               comms_battery_i := ucast (out ! 1),
                               comms_battery_v := ucast (out ! 2),
                               comms_range := ucast (out ! 3)\<rparr>)))"

text \<open>The four published channel values, in channel order.\<close>

definition gp_adc_outputs :: "gp_state \<Rightarrow> u16 list" where
  "gp_adc_outputs s = [comms_pitot s, comms_battery_i s, comms_battery_v s, comms_range s]"

section \<open>The PWM edge decoder\<close>

definition gp_pwm_delta :: "u32 \<Rightarrow> u32 \<Rightarrow> u32" where
  "gp_pwm_delta count begin_count = count - begin_count"

text \<open>The three regions of the mapping from high time to \<open>[0, 65535]\<close>.\<close>

definition gp_pwm_value :: "u32 \<Rightarrow> u16" where
  "gp_pwm_value delta =
     (if delta \<le> 42829 then 0
      else if delta \<ge> 108264 then 65535
      else ucast ((delta - 42829) AND 0xffff))"

text \<open>Body of the loop over the inputs, for input \<open>i\<close>.\<close>

definition gp_pwm_check_input :: "u32 \<Rightarrow> u32 \<Rightarrow> nat \<Rightarrow> gp_state \<Rightarrow> gp_state" where
  "gp_pwm_check_input pins_changed count i s =
     (if pins_changed AND push_bit i 1 \<noteq> 0 then
        (let s' = (if (ucast (gp_pwm_input_state s) :: u32) AND push_bit i 1 \<noteq> 0
                   then s\<lparr>gp_pwm_input_values := (gp_pwm_input_values s)
                             [i := gp_pwm_value
                                (gp_pwm_delta count (gp_pwm_input_state_begin s ! i))]\<rparr>
                   else s)
         in s'\<lparr>gp_pwm_input_state_begin := (gp_pwm_input_state_begin s')[i := count]\<rparr>)
      else s)"

text \<open>
  \<open>gp_pwm_check_inputs\<close>; \<open>cur_state\<close> is the result of \<open>gp_get_pins\<close> and
  \<open>count\<close> the cycle counter, read once when some pin changed.
\<close>

definition gp_pwm_check_inputs :: "u32 \<Rightarrow> u32 \<Rightarrow> gp_state \<Rightarrow> gp_state" where
  "gp_pwm_check_inputs cur_state count s =
     (let pins_changed = cur_state XOR ucast (gp_pwm_input_state s) in
      if pins_changed \<noteq> 0 then
        (fold (gp_pwm_check_input pins_changed count) [0..<GP_NUM_INPUTS] s)
          \<lparr>gp_pwm_input_state := ucast (cur_state AND 0xf)\<rparr>
      else s)"

section \<open>Well-formed states\<close>

text \<open>
  The sizes of the arrays and the range the cursor stays in (it is only ever set to 0
  or masked with \<open>GP_ADC_BUF_SIZE - 1\<close>).
\<close>

definition gp_wf :: "gp_state \<Rightarrow> bool" where
  "gp_wf s \<longleftrightarrow>
     length (gp_adc_samples s) = 256 \<and>
     gp_adc_last_sample_idx s < 256 \<and>
     length (gp_pwm_input_state_begin s) = 4 \<and>
     length (gp_pwm_input_values s) = 4"

section \<open>A reference state\<close>

text \<open>
  The statics as the C runtime zero-initialises them, with the output pins low and a
  PDCA channel that was never programmed. The examples below start from it.
\<close>

definition gp_zero_state :: gp_state where
  "gp_zero_state =
     \<lparr>gp_adc_samples = replicate 256 0,
      gp_adc_last_sample_idx = 0,
      last_gpio = 0,
      gp_pwm_input_state = 0,
      gp_pwm_input_state_begin = [0, 0, 0, 0],
      gp_pwm_input_values = [0, 0, 0, 0],
      pdca_tcr = 0,
      gpout_levels = [False, False, False, False],
      comms_gpin_state = 0,
      comms_pwm_values = [0, 0, 0, 0],
      comms_pitot = 0,
      comms_battery_i = 0,
      comms_battery_v = 0,
      comms_range = 0,
      hw_trace = []\<rparr>"

section \<open>Observations on one cycle\<close>

text \<open>
  Names for what \<open>gp_tick\<close> computes on the way, as functions of the state at
  entry: whether the health check fires, the value of \<open>samples_avail\<close> when the
  loop starts, what the loop returns, and the state the loop starts from.
\<close>

definition gp_tick_rearms :: "gp_state \<Rightarrow> bool" where
  "gp_tick_rearms s \<longleftrightarrow>
     gp_needs_rearm (gp_samples_avail (gp_samples_read (pdca_tcr s)) (gp_adc_last_sample_idx s))"

definition gp_tick_samples_avail :: "gp_state \<Rightarrow> u16" where
  "gp_tick_samples_avail s =
     (let samples_avail = gp_samples_avail (gp_samples_read (pdca_tcr s)) (gp_adc_last_sample_idx s)
      in if gp_needs_rearm samples_avail then 0 else samples_avail)"

definition gp_tick_accumulated :: "gp_state \<Rightarrow> gp_error + (u32 \<times> u32 list \<times> u16 list)" where
  "gp_tick_accumulated s =
     gp_adc_accumulate (unat (gp_tick_samples_avail s)) (gp_adc_samples s)
       (if gp_tick_rearms s then 0 else gp_adc_last_sample_idx s) [0, 0, 0, 0] [0, 0, 0, 0]"

definition gp_tick_before_adc :: "u8 \<Rightarrow> (nat \<Rightarrow> u32) \<Rightarrow> gp_state \<Rightarrow> gp_state" where
  "gp_tick_before_adc curr_gpio pin_value s0 =
     (let s1 = (if curr_gpio \<noteq> last_gpio s0
                then (gp_set_pins (ucast curr_gpio) s0)\<lparr>last_gpio := curr_gpio\<rparr>
                else s0);
          s2 = s1\<lparr>comms_gpin_state := ucast (gp_get_pins pin_value AND 0xff),
                  comms_pwm_values := gp_pwm_input_values s1\<rparr>
      in if gp_tick_rearms s0 then gp_pdca_rearm s2 else s2)"

text \<open>
  How many of \<open>n\<close> consecutive buffer slots, starting at slot \<open>i\<close>, belong to
  channel \<open>c\<close>.
\<close>

fun channel_hits :: "nat \<Rightarrow> nat \<Rightarrow> nat \<Rightarrow> nat" where
  "channel_hits 0 i c = 0"
| "channel_hits (Suc n) i c = (if i mod 4 = c then 1 else 0) + channel_hits n (Suc i) c"

text \<open>The events that write an output pin.\<close>

fun is_gpio_write :: "hw_event \<Rightarrow> bool" where
  "is_gpio_write (Gpio_set_pin i) = True"
| "is_gpio_write (Gpio_clr_pin i) = True"
| "is_gpio_write e = False"

text \<open>All four input pins read low.\<close>

definition gp_pins_low :: "nat \<Rightarrow> u32" where
  "gp_pins_low i = 0"

section \<open>Constants\<close>

lemma GP_ADC_BUF_SIZE_eq: "GP_ADC_BUF_SIZE = 256"
  by (simp add: GP_ADC_BUF_SIZE_def GP_NUM_ADCS_def GP_ADC_OVERSAMPLE_RATE_def)

section \<open>The available count\<close>

text \<open>
  What \<open>gp_tick\<close> computes, as a number, for a cursor inside the buffer and a
  transfer count of at most the buffer size.
\<close>

lemma avail_unat:
  assumes "idx < 256" "tcr \<le> 256"
  shows "unat (gp_samples_avail (gp_samples_read tcr) idx) =
     (if unat idx < 256 - unat tcr then 256 - unat tcr - unat idx
      else if 256 - unat tcr < unat idx then (255 - unat idx) + (256 - unat tcr)
      else 0)"
proof -
  have i: "unat idx < 256" and t: "unat tcr \<le> 256"
    using assms by (simp_all add: word_less_nat_alt word_le_nat_alt)
  have sr: "unat (256 - tcr) = 256 - unat tcr"
    using assms(2) by (simp add: unat_sub)
  have a: "unat (256 - idx - 1) = 255 - unat idx"
    using i by unat_arith
  have b: "unat ((256 - idx - 1) + (256 - tcr)) = (255 - unat idx) + (256 - unat tcr)"
  proof -
    have "unat (256 - idx - 1) + unat (256 - tcr) < 2 ^ LENGTH(32)"
      unfolding a sr using i t by simp
    then have "unat ((256 - idx - 1) + (256 - tcr)) = unat (256 - idx - 1) + unat (256 - tcr)"
      by (rule unat_add_lem[THEN iffD1])
    then show ?thesis unfolding a sr .
  qed
  have c: "unat idx < 256 - unat tcr \<Longrightarrow> unat (256 - tcr - idx) = 256 - unat tcr - unat idx"
  proof -
    assume "unat idx < 256 - unat tcr"
    then have "idx \<le> 256 - tcr" by (simp add: word_le_nat_alt sr)
    then have "unat (256 - tcr - idx) = unat (256 - tcr) - unat idx" by (rule unat_sub)
    then show ?thesis unfolding sr .
  qed
  show ?thesis
    unfolding gp_samples_avail_def gp_samples_read_def GP_ADC_BUF_SIZE_eq
    by (simp only: unsigned_ucast_eq take_bit_eq_mod word_less_nat_alt a b c sr if_distrib[of unat] unat_0 cong: if_cong)
       (use i t c in \<open>auto simp: word_less_nat_alt sr\<close>)
qed


text \<open>
  C1. The specification gives the number of unread samples, when the hardware cursor
  is behind the read cursor, as \<open>(capacity - cursor) + filled\<close>. The branch of
  \<open>gp_tick\<close> for that case subtracts one more. With the read cursor at 200 and ten
  samples written after the wrap the code arrives at 65 where the formula gives 66;
  with the read cursor at 255 and the hardware cursor back at 0 one sample is unread,
  the code arrives at 0 and takes the cycle for one without new samples.
\<close>

theorem samples_avail_wrap_one_short:
  "gp_samples_avail (gp_samples_read 246) 200 = 65 \<and>
   spec_available 256 (unat (gp_samples_read 246)) 200 = 66 \<and>
   gp_samples_avail (gp_samples_read 256) 255 = 0 \<and>
   spec_available 256 (unat (gp_samples_read 256)) 255 = 1 \<and>
   gp_needs_rearm (gp_samples_avail (gp_samples_read 256) 255)"
  by (simp add: gp_samples_avail_def gp_samples_read_def GP_ADC_BUF_SIZE_eq
      spec_available_def gp_needs_rearm_def)

section \<open>The PWM edge decoder\<close>

lemma upt_0_4: "[0..<GP_NUM_INPUTS] = [0, 1, 2, 3]"
  unfolding GP_NUM_INPUTS_def by (simp add: upt_rec)

lemma mask16: "(0xffff :: u32) = mask 16"
  by (simp add: mask_eq_exp_minus_1)

lemma mask4: "(0xf :: u32) = mask 4"
  by (simp add: mask_eq_exp_minus_1)

lemma pwm_value_unat: "unat (gp_pwm_value delta) =
   (if unat delta \<le> 42829 then 0 else if unat delta \<ge> 108264 then 65535 else (unat delta - 42829) mod 65536)"
  unfolding gp_pwm_value_def mask16
  by (auto simp: word_le_nat_alt word_less_nat_alt unat_sub unsigned_ucast_eq take_bit_eq_mod  unat_word_ariths simp flip: take_bit_eq_mask)

lemma check_input_state [simp]:
  "gp_pwm_input_state (gp_pwm_check_input pc count j s) = gp_pwm_input_state s"
  by (simp add: gp_pwm_check_input_def Let_def)

lemma check_input_length [simp]:
  "length (gp_pwm_input_values (gp_pwm_check_input pc count j s)) = length (gp_pwm_input_values s)"
  "length (gp_pwm_input_state_begin (gp_pwm_check_input pc count j s)) = length (gp_pwm_input_state_begin s)"
  by (simp_all add: gp_pwm_check_input_def Let_def)

lemma check_input_other:
  assumes "i \<noteq> j"
  shows "gp_pwm_input_values (gp_pwm_check_input pc count j s) ! i = gp_pwm_input_values s ! i"
    and "gp_pwm_input_state_begin (gp_pwm_check_input pc count j s) ! i = gp_pwm_input_state_begin s ! i"
  using assms by (simp_all add: gp_pwm_check_input_def Let_def)

lemma check_input_fold_state [simp]:
  "gp_pwm_input_state (fold (gp_pwm_check_input pc count) js s) = gp_pwm_input_state s"
  by (induction js arbitrary: s) simp_all

lemma check_input_fold_length [simp]:
  "length (gp_pwm_input_values (fold (gp_pwm_check_input pc count) js s)) = length (gp_pwm_input_values s)"
  "length (gp_pwm_input_state_begin (fold (gp_pwm_check_input pc count) js s)) = length (gp_pwm_input_state_begin s)"
  by (induction js arbitrary: s) simp_all

lemma check_input_fold_other:
  assumes "i \<notin> set js"
  shows "gp_pwm_input_values (fold (gp_pwm_check_input pc count) js s) ! i = gp_pwm_input_values s ! i"
    and "gp_pwm_input_state_begin (fold (gp_pwm_check_input pc count) js s) ! i = gp_pwm_input_state_begin s ! i"
  using assms by (induction js arbitrary: s) (simp_all add: check_input_other)

lemma check_input_falling:
  assumes "i < length (gp_pwm_input_values s)" "bit pc i" "bit (gp_pwm_input_state s) i"
  shows "gp_pwm_input_values (gp_pwm_check_input pc count i s) ! i
       = gp_pwm_value (gp_pwm_delta count (gp_pwm_input_state_begin s ! i))"
  using assms bit_imp_le_length[OF assms(2)]
  by (simp add: gp_pwm_check_input_def Let_def bit_unsigned_iff and_exp_eq_0_iff_not_bit)

lemma check_input_begin:
  assumes "i < length (gp_pwm_input_state_begin s)" "bit pc i"
  shows "gp_pwm_input_state_begin (gp_pwm_check_input pc count i s) ! i = count"
  using assms
  by (simp add: gp_pwm_check_input_def Let_def and_exp_eq_0_iff_not_bit)

lemma check_input_fold_falling:
  assumes "i < length (gp_pwm_input_values s)" "bit pc i" "bit (gp_pwm_input_state s) i"
    and "distinct js" "i \<in> set js"
  shows "gp_pwm_input_values (fold (gp_pwm_check_input pc count) js s) ! i
       = gp_pwm_value (gp_pwm_delta count (gp_pwm_input_state_begin s ! i))"
  using assms
proof (induction js arbitrary: s)
  case Nil
  then show ?case by simp
next
  case (Cons j js)
  show ?case
  proof (cases "j = i")
    case True
    then have "i \<notin> set js" using Cons.prems(4) by simp
    then show ?thesis
      using True check_input_falling[OF Cons.prems(1,2,3)]
      by (simp add: check_input_fold_other)
  next
    case False
    then have "i \<in> set js" "distinct js" using Cons.prems(4,5) by simp_all
    then show ?thesis
      using False Cons.prems(1,2,3) Cons.IH[of "gp_pwm_check_input pc count j s"]
      by (simp add: check_input_other)
  qed
qed

lemma check_input_fold_begin:
  assumes "i < length (gp_pwm_input_state_begin s)" "bit pc i"
    and "distinct js" "i \<in> set js"
  shows "gp_pwm_input_state_begin (fold (gp_pwm_check_input pc count) js s) ! i = count"
  using assms
proof (induction js arbitrary: s)
  case Nil
  then show ?case by simp
next
  case (Cons j js)
  show ?case
  proof (cases "j = i")
    case True
    then have "i \<notin> set js" using Cons.prems(3) by simp
    then show ?thesis
      using True check_input_begin[OF Cons.prems(1,2)]
      by (simp add: check_input_fold_other)
  next
    case False
    then have "i \<in> set js" "distinct js" using Cons.prems(3,4) by simp_all
    then show ?thesis
      using False Cons.prems(1,2) Cons.IH[of "gp_pwm_check_input pc count j s"]
      by simp
  qed
qed

lemma pins_changed_bit:
  assumes "i < 4"
  shows "bit (cur_state XOR ucast (st :: u8) :: u32) i \<longleftrightarrow> (bit cur_state i \<noteq> bit st i)"
  using assms by (simp add: bit_xor_iff bit_unsigned_iff)

lemma check_inputs_edge:
  assumes "i < 4" "length (gp_pwm_input_values s) = 4" "length (gp_pwm_input_state_begin s) = 4"
    and "bit cur_state i \<noteq> bit (gp_pwm_input_state s) i"
  shows "gp_pwm_input_state_begin (gp_pwm_check_inputs cur_state count s) ! i = count"
    and "bit (gp_pwm_input_state (gp_pwm_check_inputs cur_state count s)) i = bit cur_state i"
    and "length (gp_pwm_input_values (gp_pwm_check_inputs cur_state count s)) = 4"
    and "length (gp_pwm_input_state_begin (gp_pwm_check_inputs cur_state count s)) = 4"
    and "bit (gp_pwm_input_state s) i \<Longrightarrow>
         gp_pwm_input_values (gp_pwm_check_inputs cur_state count s) ! i
           = gp_pwm_value (gp_pwm_delta count (gp_pwm_input_state_begin s ! i))"
proof -
  let ?pc = "cur_state XOR ucast (gp_pwm_input_state s) :: u32"
  have b: "bit ?pc i" using assms(1,4) by (simp add: pins_changed_bit)
  then have nz: "?pc \<noteq> 0" by auto
  have e: "gp_pwm_check_inputs cur_state count s
      = (fold (gp_pwm_check_input ?pc count) [0, 1, 2, 3] s)
          \<lparr>gp_pwm_input_state := ucast (cur_state AND 0xf)\<rparr>"
    using nz by (simp add: gp_pwm_check_inputs_def Let_def upt_0_4)
  have m: "i \<in> set [0, 1, 2, 3 :: nat]" "distinct [0, 1, 2, 3 :: nat]"
    using assms(1) by auto
  show "gp_pwm_input_state_begin (gp_pwm_check_inputs cur_state count s) ! i = count"
    unfolding e using check_input_fold_begin[OF _ b m(2,1), of s count] assms(1,3) by simp
  show "bit (gp_pwm_input_state (gp_pwm_check_inputs cur_state count s)) i = bit cur_state i"
    unfolding e mask4 using assms(1) by (simp add: bit_unsigned_iff bit_and_iff bit_mask_iff)
  show "length (gp_pwm_input_values (gp_pwm_check_inputs cur_state count s)) = 4"
    unfolding e using assms(2) by simp
  show "length (gp_pwm_input_state_begin (gp_pwm_check_inputs cur_state count s)) = 4"
    unfolding e using assms(3) by simp
  show "gp_pwm_input_values (gp_pwm_check_inputs cur_state count s) ! i
           = gp_pwm_value (gp_pwm_delta count (gp_pwm_input_state_begin s ! i))"
    if "bit (gp_pwm_input_state s) i"
    unfolding e using check_input_fold_falling[OF _ b that m(2,1), of count] assms(1,2) by simp
qed

text \<open>
  C5. On a falling edge of input \<open>i\<close> (the recorded level was high, the new level is
  low) the decoder stores 0 when the elapsed count \<open>now - begin\<close> is at most 42829,
  65535 when it is at least 108264, and the elapsed count less 42829, modulo 65536,
  in between.
\<close>

theorem pwm_falling_edge_value:
  assumes "i < 4"
    and "length (gp_pwm_input_values s) = 4" and "length (gp_pwm_input_state_begin s) = 4"
    and "bit (gp_pwm_input_state s) i" and "\<not> bit cur_state i"
  shows "unat (gp_pwm_input_values (gp_pwm_check_inputs cur_state now s) ! i) =
     (let delta = unat (now - gp_pwm_input_state_begin s ! i) in
      if delta \<le> 42829 then 0
      else if delta \<ge> 108264 then 65535
      else (delta - 42829) mod 65536)"
proof -
  have "bit cur_state i \<noteq> bit (gp_pwm_input_state s) i"
    using assms(4,5) by simp
  then have "gp_pwm_input_values (gp_pwm_check_inputs cur_state now s) ! i
      = gp_pwm_value (gp_pwm_delta now (gp_pwm_input_state_begin s ! i))"
    using assms(4) by (rule check_inputs_edge(5)[OF assms(1,2,3)])
  then show ?thesis
    by (simp only: pwm_value_unat gp_pwm_delta_def Let_def)
qed

theorem pwm_falling_edge_value_witness:
  "(1 :: nat) < 4 \<and>
   bit (gp_pwm_input_state
     (gp_zero_state\<lparr>gp_pwm_input_state := 2, gp_pwm_input_state_begin := [0, 1000, 0, 0]\<rparr>)) (1 :: nat) \<and>
   \<not> bit (0 :: u32) (1 :: nat) \<and>
   unat (gp_pwm_input_values (gp_pwm_check_inputs 0 61000
     (gp_zero_state\<lparr>gp_pwm_input_state := 2, gp_pwm_input_state_begin := [0, 1000, 0, 0]\<rparr>)) ! 1)
     = 17171"
  using pwm_falling_edge_value[of 1
      "gp_zero_state\<lparr>gp_pwm_input_state := 2, gp_pwm_input_state_begin := [0, 1000, 0, 0]\<rparr>"
      0 61000]
  by (simp add: gp_zero_state_def)

text \<open>
  C8. A rising edge at counter value \<open>t0\<close> followed by a falling edge \<open>d\<close> ticks
  later, \<open>d\<close> below \<open>2^32\<close>: the 32-bit difference the decoder takes is \<open>d\<close>, also
  when the counter wrapped in between, and the stored value is the one for \<open>d\<close>.
\<close>

theorem pwm_duration_wraparound:
  assumes "i < 4"
    and "length (gp_pwm_input_values s) = 4" and "length (gp_pwm_input_state_begin s) = 4"
    and "\<not> bit (gp_pwm_input_state s) i" and "bit rising_pins i" and "\<not> bit falling_pins i"
    and "d < 2 ^ 32"
  shows "unat (gp_pwm_delta (t0 + of_nat d)
           (gp_pwm_input_state_begin (gp_pwm_check_inputs rising_pins t0 s) ! i)) = d \<and>
         gp_pwm_input_values
           (gp_pwm_check_inputs falling_pins (t0 + of_nat d)
              (gp_pwm_check_inputs rising_pins t0 s)) ! i
           = gp_pwm_value (of_nat d)"
proof -
  let ?s1 = "gp_pwm_check_inputs rising_pins t0 s"
  have r: "bit rising_pins i \<noteq> bit (gp_pwm_input_state s) i"
    using assms(4,5) by simp
  have b: "gp_pwm_input_state_begin ?s1 ! i = t0"
    and h: "bit (gp_pwm_input_state ?s1) i"
    and l: "length (gp_pwm_input_values ?s1) = 4" "length (gp_pwm_input_state_begin ?s1) = 4"
    using check_inputs_edge(1-4)[OF assms(1,2,3) r, of t0] assms(5) by simp_all
  have d: "gp_pwm_delta (t0 + of_nat d) t0 = of_nat d"
    by (simp add: gp_pwm_delta_def)
  have u: "unat (of_nat d :: u32) = d"
    using assms(7) by (simp add: unat_of_nat)
  have f: "bit falling_pins i \<noteq> bit (gp_pwm_input_state ?s1) i"
    using h assms(6) by simp
  have "gp_pwm_input_values (gp_pwm_check_inputs falling_pins (t0 + of_nat d) ?s1) ! i
      = gp_pwm_value (gp_pwm_delta (t0 + of_nat d) (gp_pwm_input_state_begin ?s1 ! i))"
    using f h by (rule check_inputs_edge(5)[OF assms(1) l])
  then show ?thesis
    unfolding b d u by simp
qed

theorem pwm_duration_wraparound_witness:
  "(0xFFFFFF00 + of_nat 60000 :: u32) < 0xFFFFFF00 \<and>
   unat (gp_pwm_delta (0xFFFFFF00 + of_nat 60000)
           (gp_pwm_input_state_begin (gp_pwm_check_inputs 2 0xFFFFFF00 gp_zero_state) ! 1)) = 60000 \<and>
   gp_pwm_input_values
     (gp_pwm_check_inputs 0 (0xFFFFFF00 + of_nat 60000)
        (gp_pwm_check_inputs 2 0xFFFFFF00 gp_zero_state)) ! 1 = 17171"
proof -
  have v: "gp_pwm_value 60000 = 17171"
    by (simp add: gp_pwm_value_def)
  have w: "(0xFFFFFF00 + of_nat 60000 :: u32) < 0xFFFFFF00"
    by simp
  show ?thesis
    using pwm_duration_wraparound[of 1 gp_zero_state 2 0 60000 "0xFFFFFF00"] w
    by (simp add: gp_zero_state_def v)
qed

text \<open>
  C9. The mapping of the decoder is monotone in the elapsed count. In the middle
  region the mask with \<open>0xffff\<close> changes nothing, the value is the elapsed count less
  42829 and at most 65434; no elapsed count gives a value from 65435 to 65534.
\<close>

theorem pwm_value_monotone:
  "(d1 \<le> d2 \<longrightarrow> gp_pwm_value d1 \<le> gp_pwm_value d2) \<and>
   (42829 < d \<and> d < 108264 \<longrightarrow>
      (d - 42829) AND 0xffff = d - 42829 \<and>
      unat (gp_pwm_value d) = unat d - 42829 \<and>
      unat (gp_pwm_value d) \<le> 65434) \<and>
   \<not> (65435 \<le> unat (gp_pwm_value d) \<and> unat (gp_pwm_value d) \<le> 65534)"
proof (intro conjI impI)
  assume "d1 \<le> d2"
  then have "unat d1 \<le> unat d2" by (simp add: word_le_nat_alt)
  then have "unat (gp_pwm_value d1) \<le> unat (gp_pwm_value d2)"
    unfolding pwm_value_unat by auto
  then show "gp_pwm_value d1 \<le> gp_pwm_value d2" by (simp add: word_le_nat_alt)
next
  assume a: "42829 < d \<and> d < 108264"
  then have n: "42829 < unat d" "unat d < 108264"
    by (simp_all add: word_less_nat_alt)
  have s: "unat (d - 42829) = unat d - 42829"
    using n by (simp add: unat_sub word_le_nat_alt)
  have "unat ((d - 42829) AND mask 16) = unat (d - 42829)"
    using n s by (simp add: unsigned_take_bit_eq take_bit_eq_mod unat_mod flip: take_bit_eq_mask)
  then show "(d - 42829) AND 0xffff = d - 42829"
    unfolding mask16 by (simp only: word_unat_eq_iff)
  show "unat (gp_pwm_value d) = unat d - 42829"
    unfolding pwm_value_unat using n by simp
  show "unat (gp_pwm_value d) \<le> 65434"
    unfolding pwm_value_unat using n by simp
next
  show "\<not> (65435 \<le> unat (gp_pwm_value d) \<and> unat (gp_pwm_value d) \<le> 65534)"
    unfolding pwm_value_unat by auto
qed

theorem pwm_value_monotone_witness:
  "(50000 :: u32) \<le> 60000 \<and> gp_pwm_value 50000 \<le> gp_pwm_value 60000 \<and>
   (42829 :: u32) < 108263 \<and> (108263 :: u32) < 108264 \<and>
   unat (gp_pwm_value 108263) = 65434"
  using pwm_value_monotone[of 50000 60000 108263]
  by simp

section \<open>Counting the slots of a channel\<close>

lemma channel_hits_cong:
  "i mod 4 = j mod 4 \<Longrightarrow> channel_hits n i c = channel_hits n j c"
proof (induction n arbitrary: i j)
  case 0
  show ?case by simp
next
  case (Suc n)
  have "Suc i mod 4 = Suc j mod 4"
    using Suc.prems by (metis mod_Suc_eq)
  then have "channel_hits n (Suc i) c = channel_hits n (Suc j) c"
    by (rule Suc.IH)
  then show ?case using Suc.prems by simp
qed

lemma channel_hits_four:
  assumes "c < 4"
  shows "channel_hits (Suc (Suc (Suc (Suc n)))) i c = Suc (channel_hits n i c)"
proof (induction n arbitrary: i)
  case 0
  have i: "i mod 4 = 0 \<or> i mod 4 = 1 \<or> i mod 4 = 2 \<or> i mod 4 = 3" by arith
  have c: "c = 0 \<or> c = 1 \<or> c = 2 \<or> c = 3" using assms by arith
  show ?case
    using i c by (auto simp: mod_Suc)
next
  case (Suc n)
  show ?case using Suc.IH[of "Suc i"] by simp
qed

lemma mod4_distinct:
  "Suc i mod 4 \<noteq> i mod 4" "Suc (Suc i) mod 4 \<noteq> i mod 4" "Suc (Suc i) mod 4 \<noteq> Suc i mod 4"
  by presburger+

lemma channel_hits_le: "c < 4 \<Longrightarrow> channel_hits n i c \<le> (n + 3) div 4"
proof (induction n arbitrary: i rule: less_induct)
  case (less n)
  consider "n = 0" | "n = Suc 0" | "n = Suc (Suc 0)" | "n = Suc (Suc (Suc 0))"
    | m where "n = Suc (Suc (Suc (Suc m)))"
    by (metis not0_implies_Suc)
  then show ?case
  proof cases
    case 5
    have "channel_hits m i c \<le> (m + 3) div 4" using less 5 by simp
    then show ?thesis unfolding 5 channel_hits_four[OF less.prems] by simp
  qed (use mod4_distinct[of i] in auto)
qed

lemma sint_2047: "sint (2047 :: s16) = 2047"
  by simp

lemma clamp_sample_range: "0 \<le> sint (clamp_sample x) \<and> sint (clamp_sample x) \<le> 2047"
proof (cases "x <s 0")
  case True
  then show ?thesis by (simp add: clamp_sample_def)
next
  case neg: False
  show ?thesis
  proof (cases "2047 \<le>s x")
    case True
    then show ?thesis using neg by (simp add: clamp_sample_def)
  next
    case False
    then have "sint x < 2047" unfolding word_sle_eq sint_2047 by simp
    moreover have "0 \<le> sint x" using neg unfolding word_sless_alt by simp
    ultimately show ?thesis using neg False by (simp add: clamp_sample_def)
  qed
qed

lemma clamp_sample_unat: "unat (scast (clamp_sample x) :: u32) = nat (sint (clamp_sample x))"
proof -
  define k where "k = sint (clamp_sample x)"
  have r: "0 \<le> k" "k \<le> 2047"
    using clamp_sample_range[of x] by (simp_all add: k_def)
  have "k < 2 ^ LENGTH(32)" using r(2) by simp
  then have m: "k mod 2 ^ LENGTH(32) = k"
    using r(1) by (simp only: mod_pos_pos_trivial)
  have "uint (scast (clamp_sample x) :: u32) = k mod 2 ^ LENGTH(32)"
    unfolding k_def by (simp only: scast_eq uint_word_of_int)
  then have "uint (scast (clamp_sample x) :: u32) = k"
    by (simp only: m)
  then show ?thesis
    by (simp only: unat_eq_nat_uint k_def)
qed

section \<open>The accumulating loop\<close>

lemma adc_channel_unat: "unat (idx mod GP_NUM_ADCS) = unat idx mod 4"
  by (simp add: GP_NUM_ADCS_def unat_mod)

lemma mask255: "(255 :: u32) = mask 8"
  by (simp add: mask_eq_exp_minus_1)

lemma next_idx_unat:
  assumes "unat (idx :: u32) < 256"
  shows "unat ((idx + 1) AND (GP_ADC_BUF_SIZE - 1)) = Suc (unat idx) mod 256"
proof -
  have "unat idx + unat (1 :: u32) < 2 ^ LENGTH(32)" using assms by simp
  then have "unat (idx + 1) = unat idx + unat (1 :: u32)"
    by (rule unat_add_lem[THEN iffD1])
  then have s: "unat (idx + 1) = Suc (unat idx)" by simp
  have "unat ((idx + 1) AND mask 8) = unat (idx + 1) mod 2 ^ 8"
    by (simp add: unsigned_take_bit_eq take_bit_eq_mod unat_mod flip: take_bit_eq_mask)
  then show ?thesis
    unfolding GP_ADC_BUF_SIZE_eq using s by (simp add: mask255)
qed

lemma accumulate_step:
  assumes "adc_sample_count ! (unat idx mod 4) \<le> 64" "unat idx < length samples"
  shows "gp_adc_accumulate (Suc n) samples idx adc_totals adc_sample_count =
     gp_adc_accumulate n samples ((idx + 1) AND (GP_ADC_BUF_SIZE - 1))
       (adc_totals[unat idx mod 4 := adc_totals ! (unat idx mod 4)
           + scast (clamp_sample (samples ! unat idx))])
       (adc_sample_count[unat idx mod 4 := adc_sample_count ! (unat idx mod 4) + 1])"
  using assms by (simp add: adc_channel_unat Let_def)

lemma accumulate_Inr_step:
  assumes "gp_adc_accumulate (Suc n) samples idx adc_totals adc_sample_count = Inr r"
  shows "adc_sample_count ! (unat idx mod 4) \<le> 64 \<and> unat idx < length samples"
  using assms by (simp add: adc_channel_unat Let_def split: if_splits)

lemma channel_hits_next:
  assumes "unat (idx :: u32) < 256"
  shows "channel_hits n (unat ((idx + 1) AND (GP_ADC_BUF_SIZE - 1))) c
       = channel_hits n (Suc (unat idx)) c"
proof (rule channel_hits_cong)
  have "Suc (unat idx) mod 256 mod 4 = Suc (unat idx) mod 4"
    by (rule mod_mod_cancel) simp
  then show "unat ((idx + 1) AND (GP_ADC_BUF_SIZE - 1)) mod 4 = Suc (unat idx) mod 4"
    by (simp only: next_idx_unat[OF assms])
qed

lemma accumulate_total:
  assumes "length samples = 256" "length adc_totals = 4" "length adc_sample_count = 4"
    and "unat idx < 256"
    and "\<forall>c<4. unat (adc_sample_count ! c) + channel_hits n (unat idx) c \<le> 65"
  shows "\<exists>idx' totals' counts'.
           gp_adc_accumulate n samples idx adc_totals adc_sample_count
             = Inr (idx', totals', counts') \<and>
           length totals' = 4 \<and> length counts' = 4 \<and>
           unat idx' = (unat idx + n) mod 256 \<and>
           (\<forall>c<4. unat (counts' ! c)
                    = unat (adc_sample_count ! c) + channel_hits n (unat idx) c)"
  using assms
proof (induction n arbitrary: idx adc_totals adc_sample_count)
  case 0
  then show ?case by simp
next
  case (Suc n)
  let ?ch = "unat idx mod 4"
  let ?idx' = "(idx + 1) AND (GP_ADC_BUF_SIZE - 1)"
  let ?totals' = "adc_totals[?ch := adc_totals ! ?ch + scast (clamp_sample (samples ! unat idx))]"
  let ?counts' = "adc_sample_count[?ch := adc_sample_count ! ?ch + 1]"
  have ch: "?ch < 4" by simp
  have hit: "channel_hits (Suc n) (unat idx) ?ch = Suc (channel_hits n (Suc (unat idx)) ?ch)"
    by simp
  have "unat (adc_sample_count ! ?ch) + channel_hits (Suc n) (unat idx) ?ch \<le> 65"
    using Suc.prems(5) ch by blast
  then have le64: "unat (adc_sample_count ! ?ch) \<le> 64"
    unfolding hit by simp
  then have w64: "adc_sample_count ! ?ch \<le> 64"
    by (simp add: word_le_nat_alt)
  have inc: "unat (adc_sample_count ! ?ch + 1) = Suc (unat (adc_sample_count ! ?ch))"
  proof -
    have "unat (adc_sample_count ! ?ch) + unat (1 :: u16) < 2 ^ LENGTH(16)"
      using le64 by simp
    then have "unat (adc_sample_count ! ?ch + 1) = unat (adc_sample_count ! ?ch) + unat (1 :: u16)"
      by (rule unat_add_lem[THEN iffD1])
    then show ?thesis by simp
  qed
  have step: "gp_adc_accumulate (Suc n) samples idx adc_totals adc_sample_count
        = gp_adc_accumulate n samples ?idx' ?totals' ?counts'"
    using w64 Suc.prems(1,4) by (simp only: accumulate_step)
  have idx': "unat ?idx' = Suc (unat idx) mod 256"
    by (rule next_idx_unat[OF Suc.prems(4)])
  have pre: "\<forall>c<4. unat (?counts' ! c) + channel_hits n (unat ?idx') c \<le> 65"
  proof (intro allI impI)
    fix c :: nat
    assume c: "c < 4"
    have b: "unat (adc_sample_count ! c) + channel_hits (Suc n) (unat idx) c \<le> 65"
      using Suc.prems(5) c by blast
    show "unat (?counts' ! c) + channel_hits n (unat ?idx') c \<le> 65"
    proof (cases "c = ?ch")
      case True
      then show ?thesis
        using b inc Suc.prems(3) c
        by (simp add: channel_hits_next[OF Suc.prems(4)])
    next
      case False
      then show ?thesis
        using b Suc.prems(3) c
        by (simp add: channel_hits_next[OF Suc.prems(4)])
    qed
  qed
  have "\<exists>idx'' totals'' counts''.
           gp_adc_accumulate n samples ?idx' ?totals' ?counts'
             = Inr (idx'', totals'', counts'') \<and>
           length totals'' = 4 \<and> length counts'' = 4 \<and>
           unat idx'' = (unat ?idx' + n) mod 256 \<and>
           (\<forall>c<4. unat (counts'' ! c)
                    = unat (?counts' ! c) + channel_hits n (unat ?idx') c)"
  proof (rule Suc.IH)
    show "length samples = 256" by (rule Suc.prems(1))
    show "length ?totals' = 4" using Suc.prems(2) by simp
    show "length ?counts' = 4" using Suc.prems(3) by simp
    show "unat ?idx' < 256" unfolding idx' by simp
    show "\<forall>c<4. unat (?counts' ! c) + channel_hits n (unat ?idx') c \<le> 65" by (rule pre)
  qed
  then obtain idx'' totals'' counts'' where
    r: "gp_adc_accumulate n samples ?idx' ?totals' ?counts' = Inr (idx'', totals'', counts'')"
    and l: "length totals'' = 4" "length counts'' = 4"
    and i: "unat idx'' = (unat ?idx' + n) mod 256"
    and k: "\<forall>c<4. unat (counts'' ! c) = unat (?counts' ! c) + channel_hits n (unat ?idx') c"
    by blast
  have i': "unat idx'' = (unat idx + Suc n) mod 256"
    unfolding i idx' by (simp add: mod_add_left_eq)
  have k': "\<forall>c<4. unat (counts'' ! c)
                    = unat (adc_sample_count ! c) + channel_hits (Suc n) (unat idx) c"
  proof (intro allI impI)
    fix c :: nat
    assume c: "c < 4"
    have e: "unat (counts'' ! c) = unat (?counts' ! c) + channel_hits n (Suc (unat idx)) c"
      using k c by (simp add: channel_hits_next[OF Suc.prems(4)])
    show "unat (counts'' ! c) = unat (adc_sample_count ! c) + channel_hits (Suc n) (unat idx) c"
    proof (cases "c = ?ch")
      case True
      then show ?thesis using e inc Suc.prems(3) c by simp
    next
      case False
      then show ?thesis using e Suc.prems(3) c by simp
    qed
  qed
  show ?case
    unfolding step using r l i' k' by blast
qed

lemma clamp_sample_le: "unat (scast (clamp_sample x) :: u32) \<le> 2047"
  using clamp_sample_range[of x] unfolding clamp_sample_unat by linarith

lemma accumulate_totals_le:
  assumes "gp_adc_accumulate n samples idx adc_totals adc_sample_count
             = Inr (idx', totals', counts')"
    and "length adc_totals = 4" "unat idx < 256" "c < 4"
    and "unat (adc_totals ! c) + 2047 * channel_hits n (unat idx) c < 2 ^ 32"
  shows "unat (totals' ! c) \<le> unat (adc_totals ! c) + 2047 * channel_hits n (unat idx) c"
  using assms
proof (induction n arbitrary: idx adc_totals adc_sample_count)
  case 0
  then show ?case by simp
next
  case (Suc n)
  let ?ch = "unat idx mod 4"
  let ?idx' = "(idx + 1) AND (GP_ADC_BUF_SIZE - 1)"
  let ?x = "scast (clamp_sample (samples ! unat idx)) :: u32"
  let ?totals' = "adc_totals[?ch := adc_totals ! ?ch + ?x]"
  let ?counts' = "adc_sample_count[?ch := adc_sample_count ! ?ch + 1]"
  have ok: "adc_sample_count ! ?ch \<le> 64" "unat idx < length samples"
    using accumulate_Inr_step[OF Suc.prems(1)] by simp_all
  have r: "gp_adc_accumulate n samples ?idx' ?totals' ?counts' = Inr (idx', totals', counts')"
    using Suc.prems(1) by (simp only: accumulate_step[OF ok])
  have idx': "unat ?idx' < 256"
    unfolding next_idx_unat[OF Suc.prems(3)] by simp
  have hn: "channel_hits n (unat ?idx') c = channel_hits n (Suc (unat idx)) c"
    by (rule channel_hits_next[OF Suc.prems(3)])
  have x: "unat ?x \<le> 2047" by (rule clamp_sample_le)
  show ?case
  proof (cases "c = ?ch")
    case True
    have hs: "channel_hits (Suc n) (unat idx) c = Suc (channel_hits n (Suc (unat idx)) c)"
      using True by simp
    have room: "unat (adc_totals ! c) + 2047 + 2047 * channel_hits n (Suc (unat idx)) c < 2 ^ 32"
      using Suc.prems(5) unfolding hs by simp
    have "unat (adc_totals ! c) + unat ?x < 2 ^ LENGTH(32)"
      using room x by simp
    then have add: "unat (adc_totals ! c + ?x) = unat (adc_totals ! c) + unat ?x"
      by (rule unat_add_lem[THEN iffD1])
    have new: "?totals' ! c = adc_totals ! c + ?x"
      using True Suc.prems(2,4) by simp
    have "unat (totals' ! c) \<le> unat (?totals' ! c) + 2047 * channel_hits n (unat ?idx') c"
    proof (rule Suc.IH[OF r _ idx' Suc.prems(4)])
      show "length ?totals' = 4" using Suc.prems(2) by simp
      show "unat (?totals' ! c) + 2047 * channel_hits n (unat ?idx') c < 2 ^ 32"
        unfolding new add hn using room x by simp
    qed
    then show ?thesis
      unfolding new add hn hs using x by simp
  next
    case False
    have hs: "channel_hits (Suc n) (unat idx) c = channel_hits n (Suc (unat idx)) c"
      using False by simp
    have new: "?totals' ! c = adc_totals ! c"
      using False by simp
    have "unat (totals' ! c) \<le> unat (?totals' ! c) + 2047 * channel_hits n (unat ?idx') c"
    proof (rule Suc.IH[OF r _ idx' Suc.prems(4)])
      show "length ?totals' = 4" using Suc.prems(2) by simp
      show "unat (?totals' ! c) + 2047 * channel_hits n (unat ?idx') c < 2 ^ 32"
        unfolding new hn using Suc.prems(5) unfolding hs .
    qed
    then show ?thesis
      unfolding new hn hs .
  qed
qed

lemma accumulate_totals_const:
  assumes "gp_adc_accumulate n samples idx adc_totals adc_sample_count
             = Inr (idx', totals', counts')"
    and "length adc_totals = 4" "unat idx < 256" "c < 4"
    and "\<forall>j<n. (unat idx + j) mod 4 = c \<longrightarrow> samples ! ((unat idx + j) mod 256) = v"
  shows "totals' ! c
       = adc_totals ! c + of_nat (channel_hits n (unat idx) c) * scast (clamp_sample v)"
  using assms
proof (induction n arbitrary: idx adc_totals adc_sample_count)
  case 0
  then show ?case by simp
next
  case (Suc n)
  let ?ch = "unat idx mod 4"
  let ?idx' = "(idx + 1) AND (GP_ADC_BUF_SIZE - 1)"
  let ?x = "scast (clamp_sample (samples ! unat idx)) :: u32"
  let ?totals' = "adc_totals[?ch := adc_totals ! ?ch + ?x]"
  let ?counts' = "adc_sample_count[?ch := adc_sample_count ! ?ch + 1]"
  have ok: "adc_sample_count ! ?ch \<le> 64" "unat idx < length samples"
    using accumulate_Inr_step[OF Suc.prems(1)] by simp_all
  have r: "gp_adc_accumulate n samples ?idx' ?totals' ?counts' = Inr (idx', totals', counts')"
    using Suc.prems(1) by (simp only: accumulate_step[OF ok])
  have ui: "unat ?idx' = Suc (unat idx) mod 256"
    by (rule next_idx_unat[OF Suc.prems(3)])
  have idx': "unat ?idx' < 256"
    unfolding ui by simp
  have hn: "channel_hits n (unat ?idx') c = channel_hits n (Suc (unat idx)) c"
    by (rule channel_hits_next[OF Suc.prems(3)])
  have rest: "\<forall>j<n. (unat ?idx' + j) mod 4 = c \<longrightarrow> samples ! ((unat ?idx' + j) mod 256) = v"
  proof (intro allI impI)
    fix j
    assume j: "j < n" and m: "(unat ?idx' + j) mod 4 = c"
    have a: "(unat ?idx' + j) mod 256 = (unat idx + Suc j) mod 256"
      unfolding ui by (simp add: mod_add_left_eq)
    have d: "(4::nat) dvd 256" by simp
    have "(unat ?idx' + j) mod 4 = (unat ?idx' + j) mod 256 mod 4"
      by (simp only: mod_mod_cancel[OF d])
    also have "\<dots> = (unat idx + Suc j) mod 256 mod 4"
      by (simp only: a)
    also have "\<dots> = (unat idx + Suc j) mod 4"
      by (rule mod_mod_cancel[OF d])
    finally have b: "(unat idx + Suc j) mod 4 = c"
      using m by simp
    show "samples ! ((unat ?idx' + j) mod 256) = v"
      unfolding a using Suc.prems(5) j b by (simp only: Suc_less_eq)
  qed
  have ih: "totals' ! c
      = ?totals' ! c + of_nat (channel_hits n (unat ?idx') c) * scast (clamp_sample v)"
  proof (rule Suc.IH[OF r _ idx' Suc.prems(4) rest])
    show "length ?totals' = 4" using Suc.prems(2) by simp
  qed
  show ?case
  proof (cases "c = ?ch")
    case True
    have "0 < Suc n \<longrightarrow> (unat idx + 0) mod 4 = c \<longrightarrow> samples ! ((unat idx + 0) mod 256) = v"
      using Suc.prems(5) by blast
    then have sv: "samples ! unat idx = v"
      using Suc.prems(3) True by simp
    have new: "?totals' ! c = adc_totals ! c + scast (clamp_sample v)"
      using True Suc.prems(2,4) sv by simp
    have hs: "channel_hits (Suc n) (unat idx) c = Suc (channel_hits n (Suc (unat idx)) c)"
      using True by simp
    show ?thesis
      unfolding ih new hn hs by (simp add: distrib_right)
  next
    case False
    have hs: "channel_hits (Suc n) (unat idx) c = channel_hits n (Suc (unat idx)) c"
      using False by simp
    have new: "?totals' ! c = adc_totals ! c"
      using False by simp
    show ?thesis
      unfolding ih new hn hs ..
  qed
qed

section \<open>Averaging and the health check\<close>

lemma unat_ucast_16_32: "unat (ucast (k :: u16) :: u32) = unat k"
proof -
  have "unat k < 2 ^ 16" using unsigned_less[of k, where 'a=nat] by simp
  then have "unat k < 2 ^ 32" by simp
  then show ?thesis by (simp add: unsigned_ucast_eq take_bit_eq_mod)
qed

lemma needs_rearm_unat: "gp_needs_rearm a \<longleftrightarrow> 224 < unat a \<or> unat a = 0"
proof -
  have "(GP_ADC_BUF_SIZE * 7 div 8 :: u32) = 224"
    unfolding GP_ADC_BUF_SIZE_eq by simp
  moreover have "unat (ucast a :: u32) = unat a"
    by (rule unat_ucast_16_32)
  ultimately show ?thesis
    by (simp add: gp_needs_rearm_def word_less_nat_alt unat_eq_0)
qed

lemma samples_read_assert: "tcr \<le> 256 \<Longrightarrow> gp_samples_read tcr \<le> GP_ADC_BUF_SIZE"
  unfolding gp_samples_read_def GP_ADC_BUF_SIZE_eq
  by (simp add: word_le_nat_alt unat_sub)

lemma average_zero: "gp_adc_average t 0 = 0"
  by (simp add: gp_adc_average_def)

lemma unat_push_bit_4:
  assumes "unat (t :: u32) < 2 ^ 28"
  shows "unat (push_bit 4 t) = 16 * unat t"
proof -
  have "unat (push_bit 4 t) = (16 * unat t) mod 2 ^ 32"
    by (simp add: push_bit_eq_mult unat_word_ariths mult.commute)
  moreover have "16 * unat t < 2 ^ 32" using assms by simp
  ultimately show ?thesis by simp
qed

lemma average_unat:
  assumes "unat t < 2 ^ 28"
  shows "unat (gp_adc_average t k) = (if k = 0 then 0 else (16 * unat t) div unat k)"
proof (cases "k = 0")
  case True
  then show ?thesis by (simp add: average_zero)
next
  case False
  then have "0 < k" by (simp add: word_greater_zero_iff)
  then have "gp_adc_average t k = push_bit 4 t div ucast k"
    by (simp add: gp_adc_average_def)
  then have "unat (gp_adc_average t k) = unat (push_bit 4 t) div unat (ucast k :: u32)"
    by (simp only: unat_div)
  then show ?thesis
    using False by (simp only: unat_push_bit_4[OF assms] unat_ucast_16_32 if_False)
qed

lemma scale_ok:
  assumes "length adc_totals = 4"
    and "\<forall>c<4. gp_adc_average (adc_totals ! c) (counts ! c) \<le> 32768"
  shows "gp_adc_scale [0, 1, 2, 3] counts adc_totals
       = Inr (map (\<lambda>c. gp_adc_average (adc_totals ! c) (counts ! c)) [0, 1, 2, 3])"
proof -
  obtain a b c d where t: "adc_totals = [a, b, c, d]"
    using assms(1) by (auto simp: length_Suc_conv numeral_eq_Suc)
  have "gp_adc_average a (counts ! 0) \<le> 32768" "gp_adc_average b (counts ! 1) \<le> 32768"
    "gp_adc_average c (counts ! 2) \<le> 32768" "gp_adc_average d (counts ! 3) \<le> 32768"
    using assms(2) unfolding t by (auto dest: spec[of _ 0] spec[of _ 1] spec[of _ 2] spec[of _ 3])
  then show ?thesis
    unfolding t by (simp add: Let_def)
qed

lemma before_adc_fields:
  "gp_adc_samples (gp_tick_before_adc g p s) = gp_adc_samples s"
  "gp_adc_last_sample_idx (gp_tick_before_adc g p s)
     = (if gp_tick_rearms s then 0 else gp_adc_last_sample_idx s)"
  "pdca_tcr (gp_tick_before_adc g p s) = (if gp_tick_rearms s then GP_ADC_BUF_SIZE else pdca_tcr s)"
  "last_gpio (gp_tick_before_adc g p s) = g"
  "gpout_levels (gp_tick_before_adc g p s)
     = (if g \<noteq> last_gpio s
        then map (\<lambda>i. (ucast g :: u32) AND push_bit i 1 \<noteq> 0) [0..<GP_NUM_OUTPUTS]
        else gpout_levels s)"
  "hw_trace (gp_tick_before_adc g p s)
     = hw_trace s @ (if g \<noteq> last_gpio s then gp_set_pins_events (ucast g) else [])
         @ (if gp_tick_rearms s then gp_rearm_events else [])"
  "gp_pwm_input_values (gp_tick_before_adc g p s) = gp_pwm_input_values s"
  "comms_pwm_values (gp_tick_before_adc g p s) = gp_pwm_input_values s"
  by (simp_all add: gp_tick_before_adc_def gp_set_pins_def gp_pdca_rearm_def Let_def)

lemma gp_tick_unfold:
  assumes "pdca_tcr s \<le> 256"
  shows "gp_tick g p s =
     (case gp_tick_accumulated s of
        Inl e \<Rightarrow> Inl e
      | Inr (idx', adc_totals, adc_sample_count) \<Rightarrow>
          (case gp_adc_scale [0, 1, 2, 3] adc_sample_count adc_totals of
             Inl e \<Rightarrow> Inl e
           | Inr out \<Rightarrow>
               Inr ((gp_tick_before_adc g p s)\<lparr>gp_adc_last_sample_idx := idx',
                       comms_pitot := ucast (out ! 0),
                       comms_battery_i := ucast (out ! 1),
                       comms_battery_v := ucast (out ! 2),
                       comms_range := ucast (out ! 3)\<rparr>)))"
proof -
  have a: "gp_samples_read (pdca_tcr s) \<le> GP_ADC_BUF_SIZE"
    by (rule samples_read_assert[OF assms])
  show ?thesis
  proof (cases "gp_tick_rearms s")
    case True
    then show ?thesis
      using a
      by (simp add: gp_tick_def gp_tick_accumulated_def gp_tick_before_adc_def
          gp_tick_samples_avail_def gp_tick_rearms_def gp_set_pins_def gp_pdca_rearm_def Let_def
          split: sum.split prod.split)
  next
    case False
    then show ?thesis
      using a
      by (simp add: gp_tick_def gp_tick_accumulated_def gp_tick_before_adc_def
          gp_tick_samples_avail_def gp_tick_rearms_def gp_set_pins_def gp_pdca_rearm_def Let_def
          split: sum.split prod.split)
  qed
qed

lemma zeros_nth: "c < 4 \<Longrightarrow> [0, 0, 0, 0 :: 'a :: zero] ! c = 0"
proof -
  assume c: "c < 4"
  have "[0, 0, 0, 0 :: 'a] = replicate 4 0" by (simp add: numeral_eq_Suc)
  then show ?thesis using c by (simp only: nth_replicate)
qed

lemma tick_samples_avail_le: "unat (gp_tick_samples_avail s) \<le> 224"
  by (simp add: gp_tick_samples_avail_def Let_def needs_rearm_unat)

lemma average_bound:
  assumes "unat t \<le> 2047 * unat (k :: u16)"
  shows "unat (gp_adc_average t k) \<le> 32752"
proof -
  have "unat k < 2 ^ 16" using unsigned_less[of k, where 'a=nat] by simp
  then have "unat t < 2 ^ 28" using assms by simp
  then have e: "unat (gp_adc_average t k) = (if k = 0 then 0 else (16 * unat t) div unat k)"
    by (rule average_unat)
  show ?thesis
  proof (cases "k = 0")
    case True
    then show ?thesis using e by simp
  next
    case False
    then have p: "0 < unat k" by (simp add: unat_gt_0)
    have "16 * unat t \<le> 32752 * unat k" using assms by simp
    then have "(16 * unat t) div unat k \<le> (32752 * unat k) div unat k"
      by (rule div_le_mono)
    then show ?thesis using e False p by simp
  qed
qed

lemma tick_accumulated_ok:
  assumes "gp_wf s"
  shows "\<exists>idx' totals counts.
     gp_tick_accumulated s = Inr (idx', totals, counts) \<and>
     length totals = 4 \<and> length counts = 4 \<and>
     unat idx' = (unat (if gp_tick_rearms s then 0 else gp_adc_last_sample_idx s)
                   + unat (gp_tick_samples_avail s)) mod 256 \<and>
     (\<forall>c<4. unat (counts ! c)
               = channel_hits (unat (gp_tick_samples_avail s))
                   (unat (if gp_tick_rearms s then 0 else gp_adc_last_sample_idx s)) c \<and>
             unat (counts ! c) \<le> 56 \<and>
             unat (totals ! c) \<le> 2047 * unat (counts ! c))"
proof -
  let ?n = "unat (gp_tick_samples_avail s)"
  let ?i = "if gp_tick_rearms s then 0 else gp_adc_last_sample_idx s"
  have len: "length (gp_adc_samples s) = 256"
    using assms by (simp add: gp_wf_def)
  have i: "unat ?i < 256"
    using assms by (simp add: gp_wf_def word_less_nat_alt)
  have h: "channel_hits ?n (unat ?i) c \<le> 56" if "c < 4" for c
  proof -
    have "channel_hits ?n (unat ?i) c \<le> (?n + 3) div 4"
      using that by (rule channel_hits_le)
    also have "\<dots> \<le> 56" using tick_samples_avail_le[of s] by simp
    finally show ?thesis .
  qed
  have pre: "\<forall>c<4. unat ([0, 0, 0, 0 :: u16] ! c) + channel_hits ?n (unat ?i) c \<le> 65"
  proof (intro allI impI)
    fix c :: nat assume c: "c < 4"
    show "unat ([0, 0, 0, 0 :: u16] ! c) + channel_hits ?n (unat ?i) c \<le> 65"
      using h[OF c] by (simp only: zeros_nth[OF c]) simp
  qed
  obtain idx' totals counts where
    r: "gp_adc_accumulate ?n (gp_adc_samples s) ?i [0, 0, 0, 0] [0, 0, 0, 0]
          = Inr (idx', totals, counts)"
    and l: "length totals = 4" "length counts = 4"
    and ix: "unat idx' = (unat ?i + ?n) mod 256"
    and k: "\<forall>c<4. unat (counts ! c)
                = unat ([0, 0, 0, 0 :: u16] ! c) + channel_hits ?n (unat ?i) c"
    using accumulate_total[OF len _ _ i pre, of "[0, 0, 0, 0]"] by auto
  have per: "unat (counts ! c) = channel_hits ?n (unat ?i) c \<and>
             unat (counts ! c) \<le> 56 \<and> unat (totals ! c) \<le> 2047 * unat (counts ! c)"
    if c: "c < 4" for c
  proof -
    have kc: "unat (counts ! c) = channel_hits ?n (unat ?i) c"
      using k c by (simp add: zeros_nth)
    have room: "unat ([0, 0, 0, 0 :: u32] ! c) + 2047 * channel_hits ?n (unat ?i) c < 2 ^ 32"
      using h[OF c] by (simp only: zeros_nth[OF c]) simp
    have "unat (totals ! c)
        \<le> unat ([0, 0, 0, 0 :: u32] ! c) + 2047 * channel_hits ?n (unat ?i) c"
      by (rule accumulate_totals_le[OF r _ i c room]) simp
    then have "unat (totals ! c) \<le> 2047 * unat (counts ! c)"
      unfolding kc by (simp only: zeros_nth[OF c]) simp
    then show ?thesis using kc h[OF c] by simp
  qed
  show ?thesis
    unfolding gp_tick_accumulated_def using r l ix per by blast
qed

lemma gp_tick_result:
  assumes "gp_wf s" "pdca_tcr s \<le> 256"
  shows "\<exists>s' idx' totals counts.
     gp_tick g p s = Inr s' \<and>
     gp_tick_accumulated s = Inr (idx', totals, counts) \<and>
     s' = (gp_tick_before_adc g p s)\<lparr>gp_adc_last_sample_idx := idx',
             comms_pitot := ucast (gp_adc_average (totals ! 0) (counts ! 0)),
             comms_battery_i := ucast (gp_adc_average (totals ! 1) (counts ! 1)),
             comms_battery_v := ucast (gp_adc_average (totals ! 2) (counts ! 2)),
             comms_range := ucast (gp_adc_average (totals ! 3) (counts ! 3))\<rparr> \<and>
     length totals = 4 \<and> length counts = 4 \<and>
     unat idx' = (unat (if gp_tick_rearms s then 0 else gp_adc_last_sample_idx s)
                   + unat (gp_tick_samples_avail s)) mod 256 \<and>
     (\<forall>c<4. unat (counts ! c)
               = channel_hits (unat (gp_tick_samples_avail s))
                   (unat (if gp_tick_rearms s then 0 else gp_adc_last_sample_idx s)) c \<and>
             unat (counts ! c) \<le> 56 \<and>
             unat (totals ! c) \<le> 2047 * unat (counts ! c) \<and>
             unat (gp_adc_average (totals ! c) (counts ! c)) \<le> 32752)"
proof -
  obtain idx' totals counts where
    r: "gp_tick_accumulated s = Inr (idx', totals, counts)"
    and l: "length totals = 4" "length counts = 4"
    and ix: "unat idx' = (unat (if gp_tick_rearms s then 0 else gp_adc_last_sample_idx s)
                   + unat (gp_tick_samples_avail s)) mod 256"
    and per: "\<forall>c<4. unat (counts ! c)
               = channel_hits (unat (gp_tick_samples_avail s))
                   (unat (if gp_tick_rearms s then 0 else gp_adc_last_sample_idx s)) c \<and>
             unat (counts ! c) \<le> 56 \<and>
             unat (totals ! c) \<le> 2047 * unat (counts ! c)"
    using tick_accumulated_ok[OF assms(1)] by blast
  have avg: "unat (gp_adc_average (totals ! c) (counts ! c)) \<le> 32752" if "c < 4" for c
  proof (rule average_bound)
    show "unat (totals ! c) \<le> 2047 * unat (counts ! c)" using per that by blast
  qed
  have "\<forall>c<4. gp_adc_average (totals ! c) (counts ! c) \<le> 32768"
  proof (intro allI impI)
    fix c :: nat assume "c < 4"
    then have "unat (gp_adc_average (totals ! c) (counts ! c)) \<le> 32752" by (rule avg)
    then show "gp_adc_average (totals ! c) (counts ! c) \<le> 32768"
      by (simp add: word_le_nat_alt)
  qed
  then have sc: "gp_adc_scale [0, 1, 2, 3] counts totals
       = Inr (map (\<lambda>c. gp_adc_average (totals ! c) (counts ! c)) [0, 1, 2, 3])"
    by (rule scale_ok[OF l(1)])
  have t: "gp_tick g p s = Inr ((gp_tick_before_adc g p s)\<lparr>gp_adc_last_sample_idx := idx',
             comms_pitot := ucast (gp_adc_average (totals ! 0) (counts ! 0)),
             comms_battery_i := ucast (gp_adc_average (totals ! 1) (counts ! 1)),
             comms_battery_v := ucast (gp_adc_average (totals ! 2) (counts ! 2)),
             comms_range := ucast (gp_adc_average (totals ! 3) (counts ! 3))\<rparr>)"
    apply (subst gp_tick_unfold[OF assms(2)])
    apply (subst r)
    apply (simp only: sum.case prod.case)
    apply (subst sc)
    apply simp
    done
  show ?thesis
    using t r l ix per avg by blast
qed



lemma tick_rearm:
  assumes "pdca_tcr s \<le> 256" "gp_tick_rearms s"
  shows "gp_tick_accumulated s = Inr (0, [0, 0, 0, 0], [0, 0, 0, 0])"
    and "gp_tick g p s = Inr ((gp_tick_before_adc g p s)\<lparr>gp_adc_last_sample_idx := 0,
             comms_pitot := 0, comms_battery_i := 0, comms_battery_v := 0, comms_range := 0\<rparr>)"
proof -
  show a: "gp_tick_accumulated s = Inr (0, [0, 0, 0, 0], [0, 0, 0, 0])"
    using assms(2)
    by (simp add: gp_tick_accumulated_def gp_tick_samples_avail_def gp_tick_rearms_def)
  show "gp_tick g p s = Inr ((gp_tick_before_adc g p s)\<lparr>gp_adc_last_sample_idx := 0,
             comms_pitot := 0, comms_battery_i := 0, comms_battery_v := 0, comms_range := 0\<rparr>)"
    apply (subst gp_tick_unfold[OF assms(1)])
    apply (subst a)
    apply (simp add: Let_def average_zero)
    done
qed

lemma nth4: "c < 4 \<Longrightarrow> [f 0, f 1, f 2, f (3 :: nat)] ! c = f c"
proof -
  assume "c < 4"
  then consider "c = 0" | "c = 1" | "c = 2" | "c = 3" by arith
  then show ?thesis by cases simp_all
qed

lemma unat_ucast_average:
  assumes "unat (x :: u32) \<le> 32752"
  shows "unat (ucast x :: u16) = unat x"
  using assms by (simp add: unsigned_ucast_eq take_bit_eq_mod)

lemma tick_outputs_nth:
  assumes "c < 4"
  shows "gp_adc_outputs (st\<lparr>gp_adc_last_sample_idx := idx',
             comms_pitot := f 0, comms_battery_i := f 1,
             comms_battery_v := f 2, comms_range := f 3\<rparr>) ! c = f c"
  using nth4[OF assms, of f] by (simp add: gp_adc_outputs_def)

lemma average_const:
  assumes "unat X \<le> 2047" "k \<noteq> 0" "unat t = unat (k :: u16) * unat (X :: u32)"
  shows "unat (gp_adc_average t k) = 16 * unat X"
proof -
  have k: "unat k < 2 ^ 16" using unsigned_less[of k, where 'a=nat] by simp
  have "unat k \<le> 65535" using k by simp
  then have "unat k * unat X \<le> 65535 * 2047" using assms(1) by (rule mult_le_mono)
  then have "unat t < 2 ^ 28" unfolding assms(3) by simp
  then have "unat (gp_adc_average t k) = (16 * unat t) div unat k"
    using assms(2) by (simp add: average_unat)
  also have "\<dots> = (16 * unat X * unat k) div unat k"
    by (simp add: assms(3) mult.commute mult.left_commute)
  also have "\<dots> = 16 * unat X"
    using assms(2) by (simp add: unat_eq_0 del: mult_numeral_left_semiring_numeral)
  finally show ?thesis .
qed

lemma clamp_sample_in_range:
  assumes "0 \<le> sint v" "sint v \<le> 2047"
  shows "sint (clamp_sample v) = sint v"
proof (cases "sint v = 2047")
  case True
  then have "2047 \<le>s v" "\<not> v <s 0"
    by (simp_all add: word_sle_eq word_sless_alt)
  then have "clamp_sample v = 2047" by (simp add: clamp_sample_def)
  then show ?thesis using True by simp
next
  case False
  then have "\<not> 2047 \<le>s v" "\<not> v <s 0"
    using assms by (simp_all add: word_sle_eq word_sless_alt)
  then show ?thesis by (simp add: clamp_sample_def)
qed

lemma unat_in_range:
  assumes "0 \<le> sint (v :: s16)" "sint v \<le> 2047"
  shows "unat v = nat (sint v)"
proof -
  have "sint v < 2 ^ LENGTH(16)" using assms(2) by simp
  then have "sint v mod 2 ^ LENGTH(16) = sint v"
    using assms(1) by (simp only: mod_pos_pos_trivial)
  then have "uint v = sint v"
    by (simp only: uint_sint[of v] take_bit_eq_mod)
  then show ?thesis by (simp only: unat_eq_nat_uint)
qed

lemma unat_push_bit_4_sample:
  assumes "unat (v :: s16) \<le> 2047"
  shows "unat (push_bit 4 v) = 16 * unat v"
proof -
  have "unat (push_bit 4 v) = (16 * unat v) mod 2 ^ 16"
    by (simp add: push_bit_eq_mult unat_word_ariths mult.commute)
  moreover have "16 * unat v < 2 ^ 16" using assms by simp
  ultimately show ?thesis by simp
qed

section \<open>The cycle as a whole\<close>

lemma accumulated_six_samples:
  "gp_tick_accumulated (gp_zero_state\<lparr>gp_adc_samples := replicate 256 100, pdca_tcr := 250\<rparr>)
     = Inr (6, [200, 200, 100, 100], [2, 2, 1, 1])"
  by code_simp

lemma accumulated_two_samples:
  "gp_tick_accumulated (gp_zero_state\<lparr>pdca_tcr := 254\<rparr>)
     = Inr (2, [0, 0, 0, 0], [1, 1, 0, 0])"
  by code_simp

lemma wf_zero_state:
  "gp_wf (gp_zero_state\<lparr>gp_adc_samples := replicate 256 x, pdca_tcr := t\<rparr>)"
  "gp_wf (gp_zero_state\<lparr>pdca_tcr := t\<rparr>)"
  by (simp_all add: gp_wf_def gp_zero_state_def)

lemma tick_rearms_iff:
  "gp_tick_rearms s \<longleftrightarrow>
     224 < unat (gp_samples_avail (gp_samples_read (pdca_tcr s)) (gp_adc_last_sample_idx s)) \<or>
     gp_samples_avail (gp_samples_read (pdca_tcr s)) (gp_adc_last_sample_idx s) = 0"
  by (simp add: gp_tick_rearms_def needs_rearm_unat unat_eq_0)

text \<open>
  C3. When the available count that \<open>gp_tick\<close> computed is above 224 (7/8 of the
  buffer) or is 0, and the assertion on \<open>samples_read\<close> holds, the cycle re-arms:
  the cursor is 0 afterwards, the PDCA is programmed again with the buffer base and
  the full count, the loop runs zero times, nothing is accumulated and the four
  outputs are 0.
\<close>

theorem gp_tick_overrun_rearm:
  assumes "pdca_tcr s \<le> 256"
    and "224 < unat (gp_samples_avail (gp_samples_read (pdca_tcr s)) (gp_adc_last_sample_idx s)) \<or>
         gp_samples_avail (gp_samples_read (pdca_tcr s)) (gp_adc_last_sample_idx s) = 0"
  shows "\<exists>s'. gp_tick g p s = Inr s' \<and>
           gp_adc_last_sample_idx s' = 0 \<and>
           pdca_tcr s' = GP_ADC_BUF_SIZE \<and>
           hw_trace s' = hw_trace s
              @ (if g \<noteq> last_gpio s then gp_set_pins_events (ucast g) else [])
              @ gp_rearm_events \<and>
           Pdca_write MAR Addr_gp_adc_samples \<in> set gp_rearm_events \<and>
           Pdca_write TCR (Count GP_ADC_BUF_SIZE) \<in> set gp_rearm_events \<and>
           gp_tick_samples_avail s = 0 \<and>
           gp_tick_accumulated s = Inr (0, [0, 0, 0, 0], [0, 0, 0, 0]) \<and>
           gp_adc_outputs s' = [0, 0, 0, 0] \<and>
           gp_adc_samples s' = gp_adc_samples s"
proof -
  have r: "gp_tick_rearms s" using assms(2) by (simp only: tick_rearms_iff)
  have n: "gp_tick_samples_avail s = 0"
    using r by (simp add: gp_tick_samples_avail_def gp_tick_rearms_def)
  have e: "Pdca_write MAR Addr_gp_adc_samples \<in> set gp_rearm_events"
    "Pdca_write TCR (Count GP_ADC_BUF_SIZE) \<in> set gp_rearm_events"
    by (simp_all add: gp_rearm_events_def)
  show ?thesis
    using tick_rearm(2)[OF assms(1) r, of g p] tick_rearm(1)[OF assms(1) r] n e r
    by (simp add: before_adc_fields gp_adc_outputs_def)
qed

theorem gp_tick_overrun_rearm_witness:
  "pdca_tcr gp_zero_state \<le> 256 \<and>
   224 < unat (gp_samples_avail (gp_samples_read (pdca_tcr gp_zero_state))
                 (gp_adc_last_sample_idx gp_zero_state)) \<and>
   (\<exists>s'. gp_tick 0 gp_pins_low gp_zero_state = Inr s' \<and>
          gp_adc_last_sample_idx s' = 0 \<and> pdca_tcr s' = 256 \<and>
          hw_trace s' = gp_rearm_events \<and> gp_adc_outputs s' = [0, 0, 0, 0])"
proof -
  have a: "gp_samples_avail (gp_samples_read (pdca_tcr gp_zero_state))
             (gp_adc_last_sample_idx gp_zero_state) = 256"
    by (simp add: gp_zero_state_def gp_samples_avail_def gp_samples_read_def GP_ADC_BUF_SIZE_eq)
  have t: "pdca_tcr gp_zero_state \<le> 256" by (simp add: gp_zero_state_def)
  show ?thesis
    using gp_tick_overrun_rearm[of gp_zero_state 0 gp_pins_low] t
    unfolding a by (auto simp: gp_zero_state_def GP_ADC_BUF_SIZE_eq)
qed

text \<open>
  C2, as stated, fails. The claim has two calls with an available count of 0 leave
  the PDCA alone. In the state a re-arm leaves behind (cursor 0, transfer count 256)
  the available count is 0, and the cycle runs the re-arm sequence again.
\<close>

theorem gp_tick_idle_rearms:
  "gp_samples_avail (gp_samples_read (pdca_tcr (gp_zero_state\<lparr>pdca_tcr := 256\<rparr>)))
     (gp_adc_last_sample_idx (gp_zero_state\<lparr>pdca_tcr := 256\<rparr>)) = 0 \<and>
   gp_tick 0 gp_pins_low (gp_zero_state\<lparr>pdca_tcr := 256\<rparr>)
     = Inr (gp_zero_state\<lparr>pdca_tcr := 256, hw_trace := gp_rearm_events\<rparr>) \<and>
   Adcifa_disable \<in> set gp_rearm_events \<and>
   Pdca_write TCR (Count GP_ADC_BUF_SIZE) \<in> set gp_rearm_events"
proof -
  let ?s = "gp_zero_state\<lparr>pdca_tcr := 256\<rparr>"
  have a: "gp_samples_avail (gp_samples_read (pdca_tcr ?s)) (gp_adc_last_sample_idx ?s) = 0"
    by (simp add: gp_zero_state_def gp_samples_avail_def gp_samples_read_def GP_ADC_BUF_SIZE_eq)
  then have r: "gp_tick_rearms ?s" by (simp only: tick_rearms_iff) simp
  have t: "pdca_tcr ?s \<le> 256" by simp
  have p: "gp_get_pins gp_pins_low = 0"
    by (simp add: gp_get_pins_def gp_pins_low_def upt_0_4)
  have "gp_tick 0 gp_pins_low ?s
      = Inr (gp_zero_state\<lparr>pdca_tcr := 256, hw_trace := gp_rearm_events\<rparr>)"
    unfolding tick_rearm(2)[OF t r]
    using r by (simp add: gp_tick_before_adc_def gp_pdca_rearm_def p Let_def
        gp_zero_state_def GP_ADC_BUF_SIZE_eq)
  then show ?thesis
    using a by (simp add: gp_rearm_events_def)
qed

text \<open>
  C2, amended. Two calls of \<open>gp_tick\<close> with no new samples in between, the
  available count being 0 at the first: the count is 0 at the second as well, both
  calls publish 0 on all four channels, and each call runs the re-arm sequence once.
\<close>

theorem gp_tick_idle_twice:
  assumes "pdca_tcr s \<le> 256"
    and "gp_samples_avail (gp_samples_read (pdca_tcr s)) (gp_adc_last_sample_idx s) = 0"
  shows "\<exists>s1 s2.
           gp_tick g1 p1 s = Inr s1 \<and>
           gp_samples_avail (gp_samples_read (pdca_tcr s1)) (gp_adc_last_sample_idx s1) = 0 \<and>
           gp_tick g2 p2 s1 = Inr s2 \<and>
           gp_adc_outputs s1 = [0, 0, 0, 0] \<and>
           gp_adc_outputs s2 = gp_adc_outputs s1 \<and>
           hw_trace s1 = hw_trace s
              @ (if g1 \<noteq> last_gpio s then gp_set_pins_events (ucast g1) else [])
              @ gp_rearm_events \<and>
           hw_trace s2 = hw_trace s1
              @ (if g2 \<noteq> g1 then gp_set_pins_events (ucast g2) else [])
              @ gp_rearm_events"
proof -
  let ?s1 = "(gp_tick_before_adc g1 p1 s)\<lparr>gp_adc_last_sample_idx := 0,
             comms_pitot := 0, comms_battery_i := 0, comms_battery_v := 0, comms_range := 0\<rparr>"
  let ?s2 = "(gp_tick_before_adc g2 p2 ?s1)\<lparr>gp_adc_last_sample_idx := 0,
             comms_pitot := 0, comms_battery_i := 0, comms_battery_v := 0, comms_range := 0\<rparr>"
  have r: "gp_tick_rearms s" using assms(2) by (simp only: tick_rearms_iff) simp
  have t1: "gp_tick g1 p1 s = Inr ?s1" by (rule tick_rearm(2)[OF assms(1) r])
  have tcr1: "pdca_tcr ?s1 = 256" "gp_adc_last_sample_idx ?s1 = 0"
    using r by (simp_all add: before_adc_fields GP_ADC_BUF_SIZE_eq)
  have a1: "gp_samples_avail (gp_samples_read (pdca_tcr ?s1)) (gp_adc_last_sample_idx ?s1) = 0"
    unfolding tcr1
    by (simp add: gp_samples_avail_def gp_samples_read_def GP_ADC_BUF_SIZE_eq)
  then have r1: "gp_tick_rearms ?s1" by (simp only: tick_rearms_iff) simp
  have le1: "pdca_tcr ?s1 \<le> 256" unfolding tcr1 by simp
  have t2: "gp_tick g2 p2 ?s1 = Inr ?s2" by (rule tick_rearm(2)[OF le1 r1])
  have o: "gp_adc_outputs ?s1 = [0, 0, 0, 0]" "gp_adc_outputs ?s2 = gp_adc_outputs ?s1"
    by (simp_all add: gp_adc_outputs_def)
  have h1: "hw_trace ?s1 = hw_trace s
              @ (if g1 \<noteq> last_gpio s then gp_set_pins_events (ucast g1) else [])
              @ gp_rearm_events"
    using r by (simp add: before_adc_fields)
  have lg: "last_gpio ?s1 = g1" by (simp add: before_adc_fields)
  have h2: "hw_trace ?s2 = hw_trace ?s1
              @ (if g2 \<noteq> g1 then gp_set_pins_events (ucast g2) else [])
              @ gp_rearm_events"
    using r1 lg by (simp add: before_adc_fields)
  show ?thesis
    using t1 a1 t2 o h1 h2 by blast
qed

theorem gp_tick_idle_twice_witness:
  "pdca_tcr (gp_zero_state\<lparr>pdca_tcr := 256\<rparr>) \<le> 256 \<and>
   gp_samples_avail (gp_samples_read (pdca_tcr (gp_zero_state\<lparr>pdca_tcr := 256\<rparr>)))
     (gp_adc_last_sample_idx (gp_zero_state\<lparr>pdca_tcr := 256\<rparr>)) = 0 \<and>
   (\<exists>s1 s2.
       gp_tick 0 gp_pins_low (gp_zero_state\<lparr>pdca_tcr := 256\<rparr>) = Inr s1 \<and>
       gp_tick 0 gp_pins_low s1 = Inr s2 \<and>
       gp_adc_outputs s1 = [0, 0, 0, 0] \<and> gp_adc_outputs s2 = [0, 0, 0, 0] \<and>
       hw_trace s1 = gp_rearm_events \<and>
       hw_trace s2 = gp_rearm_events @ gp_rearm_events)"
proof -
  let ?s = "gp_zero_state\<lparr>pdca_tcr := 256\<rparr>"
  have a: "gp_samples_avail (gp_samples_read (pdca_tcr ?s)) (gp_adc_last_sample_idx ?s) = 0"
    by (simp add: gp_zero_state_def gp_samples_avail_def gp_samples_read_def GP_ADC_BUF_SIZE_eq)
  have t: "pdca_tcr ?s \<le> 256" by simp
  have h: "hw_trace ?s = []" "last_gpio ?s = 0" by (simp_all add: gp_zero_state_def)
  show ?thesis
    using gp_tick_idle_twice[OF t a, of 0 gp_pins_low 0 gp_pins_low] a t
    unfolding h by auto
qed




text \<open>
  C7. A channel whose sample count is 0 when the loop ends is published as 0.
\<close>

theorem gp_tick_empty_channel_zero:
  assumes "gp_wf s" "pdca_tcr s \<le> 256" "c < 4"
    and "gp_tick_accumulated s = Inr (idx', totals, counts)" "counts ! c = 0"
  shows "\<exists>s'. gp_tick g p s = Inr s' \<and> gp_adc_outputs s' ! c = 0"
proof -
  obtain s' idx'' totals' counts' where
    t: "gp_tick g p s = Inr s'"
    and r: "gp_tick_accumulated s = Inr (idx'', totals', counts')"
    and s': "s' = (gp_tick_before_adc g p s)\<lparr>gp_adc_last_sample_idx := idx'',
             comms_pitot := ucast (gp_adc_average (totals' ! 0) (counts' ! 0)),
             comms_battery_i := ucast (gp_adc_average (totals' ! 1) (counts' ! 1)),
             comms_battery_v := ucast (gp_adc_average (totals' ! 2) (counts' ! 2)),
             comms_range := ucast (gp_adc_average (totals' ! 3) (counts' ! 3))\<rparr>"
    using gp_tick_result[OF assms(1,2), of g p] by blast
  have e: "totals' = totals" "counts' = counts"
    using r assms(4) by simp_all
  have "gp_adc_outputs s' ! c = ucast (gp_adc_average (totals' ! c) (counts' ! c))"
    unfolding s'
    by (rule tick_outputs_nth[OF assms(3),
          where f = "\<lambda>c. ucast (gp_adc_average (totals' ! c) (counts' ! c))"])
  then have "gp_adc_outputs s' ! c = 0"
    unfolding e assms(5) by (simp add: average_zero)
  then show ?thesis using t by blast
qed

theorem gp_tick_empty_channel_zero_witness:
  "gp_wf (gp_zero_state\<lparr>pdca_tcr := 254\<rparr>) \<and>
   gp_tick_accumulated (gp_zero_state\<lparr>pdca_tcr := 254\<rparr>)
     = Inr (2, [0, 0, 0, 0], [1, 1, 0, 0]) \<and>
   (\<exists>s'. gp_tick 0 gp_pins_low (gp_zero_state\<lparr>pdca_tcr := 254\<rparr>) = Inr s' \<and>
         gp_adc_outputs s' ! 3 = 0)"
proof -
  let ?s = "gp_zero_state\<lparr>pdca_tcr := 254\<rparr>"
  have w: "gp_wf ?s" by (rule wf_zero_state(2))
  have t: "pdca_tcr ?s \<le> 256" by simp
  have a: "gp_tick_accumulated ?s = Inr (2, [0, 0, 0, 0], [1, 1, 0, 0])"
    by (rule accumulated_two_samples)
  have n: "[1, 1, 0, 0 :: u16] ! 3 = 0" by simp
  show ?thesis
    using gp_tick_empty_channel_zero[OF w t _ a n, of 0 gp_pins_low] w a
    by simp
qed

text \<open>
  C10. \<open>gp_tick\<close> writes the output pins only when the byte from the comms
  module differs from \<open>last_gpio\<close>: with an unchanged byte the pin levels are the
  same afterwards and the cycle adds no pin write to the trace; with a changed byte
  it adds the four writes of \<open>gp_set_pins\<close> and remembers the byte.
\<close>

theorem gp_tick_pin_writes:
  assumes "gp_wf s" "pdca_tcr s \<le> 256"
  shows "\<exists>s'. gp_tick g p s = Inr s' \<and> last_gpio s' = g \<and>
           (g = last_gpio s \<longrightarrow>
              gpout_levels s' = gpout_levels s \<and>
              filter is_gpio_write (hw_trace s') = filter is_gpio_write (hw_trace s)) \<and>
           (g \<noteq> last_gpio s \<longrightarrow>
              gpout_levels s'
                = map (\<lambda>i. (ucast g :: u32) AND push_bit i 1 \<noteq> 0) [0..<GP_NUM_OUTPUTS] \<and>
              filter is_gpio_write (hw_trace s')
                = filter is_gpio_write (hw_trace s) @ gp_set_pins_events (ucast g))"
proof -
  obtain s' idx' totals counts where
    t: "gp_tick g p s = Inr s'"
    and s': "s' = (gp_tick_before_adc g p s)\<lparr>gp_adc_last_sample_idx := idx',
             comms_pitot := ucast (gp_adc_average (totals ! 0) (counts ! 0)),
             comms_battery_i := ucast (gp_adc_average (totals ! 1) (counts ! 1)),
             comms_battery_v := ucast (gp_adc_average (totals ! 2) (counts ! 2)),
             comms_range := ucast (gp_adc_average (totals ! 3) (counts ! 3))\<rparr>"
    using gp_tick_result[OF assms, of g p] by blast
  have n: "filter is_gpio_write gp_rearm_events = []"
    by (simp add: gp_rearm_events_def)
  have w: "filter is_gpio_write (gp_set_pins_events v) = gp_set_pins_events v" for v
    by (simp add: gp_set_pins_events_def filter_map comp_def)
  have l: "last_gpio s' = g" "gpout_levels s' = gpout_levels (gp_tick_before_adc g p s)"
    "hw_trace s' = hw_trace (gp_tick_before_adc g p s)"
    unfolding s' by (simp_all add: before_adc_fields)
  show ?thesis
    using t l n w by (auto simp: before_adc_fields)
qed

theorem gp_tick_pin_writes_witness:
  "gp_wf (gp_zero_state\<lparr>pdca_tcr := 254\<rparr>) \<and>
   pdca_tcr (gp_zero_state\<lparr>pdca_tcr := 254\<rparr>) \<le> 256 \<and>
   (\<exists>s'. gp_tick 0 gp_pins_low (gp_zero_state\<lparr>pdca_tcr := 254\<rparr>) = Inr s' \<and>
         gpout_levels s' = [False, False, False, False] \<and>
         filter is_gpio_write (hw_trace s') = []) \<and>
   (\<exists>s'. gp_tick 5 gp_pins_low (gp_zero_state\<lparr>pdca_tcr := 254\<rparr>) = Inr s' \<and>
         last_gpio s' = 5 \<and>
         filter is_gpio_write (hw_trace s')
           = [Gpio_set_pin 0, Gpio_clr_pin 1, Gpio_set_pin 2, Gpio_clr_pin 3])"
proof -
  let ?s = "gp_zero_state\<lparr>pdca_tcr := 254\<rparr>"
  have w: "gp_wf ?s" by (rule wf_zero_state(2))
  have t: "pdca_tcr ?s \<le> 256" by simp
  have l: "last_gpio ?s = 0" "gpout_levels ?s = [False, False, False, False]" "hw_trace ?s = []"
    by (simp_all add: gp_zero_state_def)
  have e: "gp_set_pins_events (ucast (5 :: u8))
      = [Gpio_set_pin 0, Gpio_clr_pin 1, Gpio_set_pin 2, Gpio_clr_pin 3]"
    by code_simp
  show ?thesis
    using gp_tick_pin_writes[OF w t, of 0 gp_pins_low] gp_tick_pin_writes[OF w t, of 5 gp_pins_low]
      w t
    unfolding l e by auto
qed

lemma clamp_sample_id:
  assumes "0 \<le> sint (v :: s16)" "sint v \<le> 2047"
  shows "clamp_sample v = v"
proof -
  have "sint (clamp_sample v) = sint v"
    by (rule clamp_sample_in_range[OF assms])
  then show ?thesis
    by (rule signed_word_eqI)
qed

lemma scast_sample_unat:
  assumes "0 \<le> sint (v :: s16)" "sint v \<le> 2047"
  shows "unat (scast v :: u32) = unat v" "unat v \<le> 2047"
proof -
  have "unat (scast (clamp_sample v) :: u32) = nat (sint (clamp_sample v))"
    by (rule clamp_sample_unat)
  then have a: "unat (scast v :: u32) = nat (sint v)"
    by (simp only: clamp_sample_id[OF assms])
  have b: "unat v = nat (sint v)" by (rule unat_in_range[OF assms])
  show "unat (scast v :: u32) = unat v" by (simp only: a b)
  show "unat v \<le> 2047" unfolding b using assms by linarith
qed

lemma unat_mult_small:
  assumes "h \<le> 65535" "unat (X :: u32) \<le> 2047"
  shows "unat (of_nat h * X) = h * unat X"
proof -
  have "h * unat X \<le> 65535 * 2047" using assms by (rule mult_le_mono)
  then have b: "h * unat X < 2 ^ 32" by simp
  have "unat (of_nat h :: u32) = h" using assms(1) by (simp add: unat_of_nat)
  then have "unat (of_nat h * X) = (h * unat X) mod 2 ^ 32"
    by (simp add: unat_word_ariths)
  then show ?thesis using b by simp
qed

text \<open>
  C6, as stated, fails. The claim names a full buffer cycle with a count of a quarter
  of the buffer as a case of it. With all 256 slots holding the sample 100 and all of
  them unread (cursor 0, transfer count 0) the available count is 256, above 224: the
  cycle re-arms, accumulates nothing and publishes 0 on channel 0, not \<open>100 << 4\<close>.
\<close>

theorem gp_tick_full_buffer_rearms:
  "gp_samples_avail (gp_samples_read (pdca_tcr (gp_zero_state\<lparr>gp_adc_samples := replicate 256 100\<rparr>)))
     (gp_adc_last_sample_idx (gp_zero_state\<lparr>gp_adc_samples := replicate 256 100\<rparr>)) = 256 \<and>
   gp_tick_accumulated (gp_zero_state\<lparr>gp_adc_samples := replicate 256 100\<rparr>)
     = Inr (0, [0, 0, 0, 0], [0, 0, 0, 0]) \<and>
   gp_tick 0 gp_pins_low (gp_zero_state\<lparr>gp_adc_samples := replicate 256 100\<rparr>)
     = Inr (gp_zero_state\<lparr>gp_adc_samples := replicate 256 100, pdca_tcr := 256,
              hw_trace := gp_rearm_events\<rparr>) \<and>
   gp_adc_outputs (gp_zero_state\<lparr>gp_adc_samples := replicate 256 100, pdca_tcr := 256,
              hw_trace := gp_rearm_events\<rparr>) ! 0 = 0 \<and>
   gp_adc_outputs (gp_zero_state\<lparr>gp_adc_samples := replicate 256 100, pdca_tcr := 256,
              hw_trace := gp_rearm_events\<rparr>) ! 0 \<noteq> push_bit 4 (100 :: s16)"
proof -
  let ?s = "gp_zero_state\<lparr>gp_adc_samples := replicate 256 100\<rparr>"
  have a: "gp_samples_avail (gp_samples_read (pdca_tcr ?s)) (gp_adc_last_sample_idx ?s) = 256"
    by (simp add: gp_zero_state_def gp_samples_avail_def gp_samples_read_def GP_ADC_BUF_SIZE_eq)
  have r: "gp_tick_rearms ?s" by (simp only: tick_rearms_iff a) simp
  have t: "pdca_tcr ?s \<le> 256" by (simp add: gp_zero_state_def)
  have p: "gp_get_pins gp_pins_low = 0"
    by (simp add: gp_get_pins_def gp_pins_low_def upt_0_4)
  have acc: "gp_tick_accumulated ?s = Inr (0, [0, 0, 0, 0], [0, 0, 0, 0])"
    by (rule tick_rearm(1)[OF t r])
  have tick: "gp_tick 0 gp_pins_low ?s
      = Inr (gp_zero_state\<lparr>gp_adc_samples := replicate 256 100, pdca_tcr := 256,
               hw_trace := gp_rearm_events\<rparr>)"
    unfolding tick_rearm(2)[OF t r]
    using r by (simp add: gp_tick_before_adc_def gp_pdca_rearm_def p Let_def
        gp_zero_state_def GP_ADC_BUF_SIZE_eq)
  have out: "gp_adc_outputs (gp_zero_state\<lparr>gp_adc_samples := replicate 256 100,
                pdca_tcr := 256, hw_trace := gp_rearm_events\<rparr>) ! 0 = 0"
    by (simp add: gp_adc_outputs_def gp_zero_state_def)
  have ne: "(0 :: s16) \<noteq> push_bit 4 (100 :: s16)" by simp
  show ?thesis
    using a acc tick out ne by (simp only: simp_thms)
qed

text \<open>
  C6, amended. If every slot of channel \<open>c\<close> that the cycle consumes holds the same
  sample \<open>v\<close> with \<open>0 \<le> v \<le> 2047\<close>, and the channel's count is not 0, the
  channel is published as \<open>v << 4\<close>. One cycle consumes at most 224 samples, so the
  count of a channel is at most 56 and never a quarter of the buffer.
\<close>

theorem gp_tick_constant_channel:
  assumes "gp_wf s" "pdca_tcr s \<le> 256" "c < 4" "0 \<le> sint v" "sint v \<le> 2047"
    and "gp_tick_accumulated s = Inr (idx', totals, counts)" "counts ! c \<noteq> 0"
    and "\<forall>j < unat (gp_tick_samples_avail s).
           (unat (gp_adc_last_sample_idx s) + j) mod 4 = c \<longrightarrow>
           gp_adc_samples s ! ((unat (gp_adc_last_sample_idx s) + j) mod 256) = v"
  shows "(\<exists>s'. gp_tick g p s = Inr s' \<and> gp_adc_outputs s' ! c = push_bit 4 v) \<and>
         unat (counts ! c) \<le> 56 \<and>
         unat (gp_tick_samples_avail s) \<le> 224"
proof -
  let ?n = "unat (gp_tick_samples_avail s)"
  let ?X = "scast v :: u32"
  have X: "unat ?X = unat v" "unat v \<le> 2047"
    by (rule scast_sample_unat[OF assms(4,5)])+
  have nr: "\<not> gp_tick_rearms s"
  proof
    assume "gp_tick_rearms s"
    then have "gp_tick_accumulated s = Inr (0, [0, 0, 0, 0], [0, 0, 0, 0])"
      by (rule tick_rearm(1)[OF assms(2)])
    then have "counts = [0, 0, 0, 0]" using assms(6) by simp
    then have "counts ! c = 0" using zeros_nth[OF assms(3), where 'a=u16] by simp
    then show False using assms(7) by simp
  qed
  have i: "unat (gp_adc_last_sample_idx s) < 256"
    using assms(1) by (simp add: gp_wf_def word_less_nat_alt)
  obtain s' idx'' totals' counts' where
    t: "gp_tick g p s = Inr s'"
    and r: "gp_tick_accumulated s = Inr (idx'', totals', counts')"
    and s': "s' = (gp_tick_before_adc g p s)\<lparr>gp_adc_last_sample_idx := idx'',
             comms_pitot := ucast (gp_adc_average (totals' ! 0) (counts' ! 0)),
             comms_battery_i := ucast (gp_adc_average (totals' ! 1) (counts' ! 1)),
             comms_battery_v := ucast (gp_adc_average (totals' ! 2) (counts' ! 2)),
             comms_range := ucast (gp_adc_average (totals' ! 3) (counts' ! 3))\<rparr>"
    and per: "\<forall>c<4. unat (counts' ! c)
               = channel_hits ?n
                   (unat (if gp_tick_rearms s then 0 else gp_adc_last_sample_idx s)) c \<and>
             unat (counts' ! c) \<le> 56 \<and>
             unat (totals' ! c) \<le> 2047 * unat (counts' ! c) \<and>
             unat (gp_adc_average (totals' ! c) (counts' ! c)) \<le> 32752"
    using gp_tick_result[OF assms(1,2), of g p] by blast
  have e: "totals' = totals" "counts' = counts" "idx'' = idx'"
    using r assms(6) by simp_all
  have kc: "unat (counts ! c) = channel_hits ?n (unat (gp_adc_last_sample_idx s)) c"
    and k56: "unat (counts ! c) \<le> 56"
    and a32: "unat (gp_adc_average (totals ! c) (counts ! c)) \<le> 32752"
    using per[rule_format, OF assms(3)] nr unfolding e by simp_all
  have acc: "gp_adc_accumulate ?n (gp_adc_samples s) (gp_adc_last_sample_idx s)
               [0, 0, 0, 0] [0, 0, 0, 0] = Inr (idx', totals, counts)"
    using assms(6) nr by (simp add: gp_tick_accumulated_def)
  have "totals ! c = [0, 0, 0, 0] ! c
          + of_nat (channel_hits ?n (unat (gp_adc_last_sample_idx s)) c) * scast (clamp_sample v)"
    by (rule accumulate_totals_const[OF acc _ i assms(3) assms(8)]) simp
  then have tc: "totals ! c = of_nat (unat (counts ! c)) * ?X"
    unfolding kc by (simp only: zeros_nth[OF assms(3)] clamp_sample_id[OF assms(4,5)]) simp
  have X2047: "unat ?X \<le> 2047" using X by simp
  have "unat (of_nat (unat (counts ! c)) * ?X) = unat (counts ! c) * unat ?X"
    by (rule unat_mult_small) (use k56 X2047 in simp_all)
  then have "unat (totals ! c) = unat (counts ! c) * unat ?X"
    by (simp only: tc)
  then have "unat (gp_adc_average (totals ! c) (counts ! c)) = 16 * unat ?X"
    by (rule average_const[OF X2047 assms(7)])
  then have av: "unat (gp_adc_average (totals ! c) (counts ! c)) = unat (push_bit 4 v)"
    using X by (simp only: unat_push_bit_4_sample)
  have "gp_adc_outputs s' ! c = ucast (gp_adc_average (totals' ! c) (counts' ! c))"
    unfolding s'
    by (rule tick_outputs_nth[OF assms(3),
          where f = "\<lambda>c. ucast (gp_adc_average (totals' ! c) (counts' ! c))"])
  then have "unat (gp_adc_outputs s' ! c) = unat (push_bit 4 v)"
    unfolding e using av by (simp only: unat_ucast_average[OF a32])
  then have "gp_adc_outputs s' ! c = push_bit 4 v"
    by (simp only: word_unat_eq_iff)
  then have "\<exists>s'. gp_tick g p s = Inr s' \<and> gp_adc_outputs s' ! c = push_bit 4 v"
    using t by blast
  then show ?thesis
    using k56 tick_samples_avail_le[of s] by blast
qed

theorem gp_tick_constant_channel_witness:
  "gp_wf (gp_zero_state\<lparr>gp_adc_samples := replicate 256 100, pdca_tcr := 250\<rparr>) \<and>
   gp_tick_accumulated (gp_zero_state\<lparr>gp_adc_samples := replicate 256 100, pdca_tcr := 250\<rparr>)
     = Inr (6, [200, 200, 100, 100], [2, 2, 1, 1]) \<and>
   (\<exists>s'. gp_tick 0 gp_pins_low
            (gp_zero_state\<lparr>gp_adc_samples := replicate 256 100, pdca_tcr := 250\<rparr>) = Inr s' \<and>
         gp_adc_outputs s' ! 0 = 1600) \<and>
   unat ([2, 2, 1, 1 :: u16] ! 0) \<le> 56"
proof -
  let ?s = "gp_zero_state\<lparr>gp_adc_samples := replicate 256 100, pdca_tcr := 250\<rparr>"
  have w: "gp_wf ?s" by (rule wf_zero_state(1))
  have t: "pdca_tcr ?s \<le> 256" by simp
  have v: "0 \<le> sint (100 :: s16)" "sint (100 :: s16) \<le> 2047" by simp_all
  have a: "gp_tick_accumulated ?s = Inr (6, [200, 200, 100, 100], [2, 2, 1, 1])"
    by (rule accumulated_six_samples)
  have n: "[2, 2, 1, 1 :: u16] ! 0 \<noteq> 0" by simp
  have f: "\<forall>j < unat (gp_tick_samples_avail ?s).
           (unat (gp_adc_last_sample_idx ?s) + j) mod 4 = 0 \<longrightarrow>
           gp_adc_samples ?s ! ((unat (gp_adc_last_sample_idx ?s) + j) mod 256) = 100"
    by (simp add: gp_zero_state_def)
  show ?thesis
    using gp_tick_constant_channel[OF w t _ v a n f, of 0 gp_pins_low] w a
    by simp
qed

end
